theory Spec2Isabelle
  imports Complex_Main "HOL-Library.AList"
begin

section \<open>Data model of \<open>bkg.py\<close>\<close>

text \<open>
  The two colours are the strings \<open>'w'\<close> and \<open>'b'\<close> of the source. A move endpoint is the
  string \<open>'bar'\<close>, the string \<open>'off'\<close> or an integer (any Python integer: the range check is
  the code's own business). The field \<open>winner\<close> is \<open>None\<close>, a colour, or the string
  \<open>"ERROR"\<close>.
\<close>

datatype player = W | B

datatype endpoint = Bar | Off | Pt int

type_synonym move = "endpoint \<times> endpoint"

datatype winner_mark = Won player | ERROR

text \<open>
  The fields of \<open>BackgammonGame\<close> that the rules and the search read or write. The method
  \<open>copy()\<close> builds a new object holding a copy of each of them, so in this value model a copy
  of a state is the state itself. The board has 24 cells in every object the constructor or
  \<open>copy()\<close> builds; theorems that depend on it say so.
\<close>

record game =
  board :: "int list"
  white_bar :: int
  black_bar :: int
  white_off :: int
  black_off :: int
  winner :: "winner_mark option"
  current_player :: player
  dice :: "int list"
  available_moves :: "move list"

definition p_sign :: "player \<Rightarrow> int" where
  "p_sign player = (if player = W then 1 else - 1)"

definition bar_of :: "player \<Rightarrow> game \<Rightarrow> int" where
  "bar_of player gs = (if player = W then white_bar gs else black_bar gs)"

text \<open>\<open>board[pos - 1]\<close> for a point number \<open>pos\<close> that the caller has checked to be in 1..24.\<close>

definition cell :: "game \<Rightarrow> int \<Rightarrow> int" where
  "cell gs pos = board gs ! nat (pos - 1)"

section \<open>Rule functions\<close>

definition check_all_pieces_home :: "player \<Rightarrow> game \<Rightarrow> bool" where
  "check_all_pieces_home player gs =
     (if bar_of player gs > 0 then False
      else list_all (\<lambda>pos. \<not> cell gs pos * p_sign player > 0)
             (if player = W then [1..18] else [7..24]))"

definition can_bear_off :: "player \<Rightarrow> int \<Rightarrow> int \<Rightarrow> game \<Rightarrow> bool" where
  "can_bear_off player checker_pos die_value gs =
     (let home_start = (if player = W then 19 else 1);
          home_end = (if player = W then 24 else 6)
      in if \<not> (home_start \<le> checker_pos \<and> checker_pos \<le> home_end) then False
         else
           let target_point_for_exact_off = (if player = W then 25 else 0);
               required_dist = \<bar>target_point_for_exact_off - checker_pos\<bar>
           in if die_value = required_dist then True
              else
                let is_overshoot = (player = W \<and> checker_pos + die_value > 24) \<or>
                                   (player = B \<and> checker_pos - die_value < 1)
                in if is_overshoot \<and> die_value > required_dist
                   then list_all (\<lambda>p. \<not> cell gs p * p_sign player > 0)
                          (if player = W then [home_start..checker_pos - 1]
                           else [checker_pos + 1..home_end])
                   else False)"

definition get_die_for_move :: "endpoint \<Rightarrow> endpoint \<Rightarrow> player \<Rightarrow> int option" where
  "get_die_for_move src dst player =
     (case (src, dst) of
        (Pt s, Pt d) \<Rightarrow>
          (let diff = (if player = W then d - s else s - d)
           in if 1 \<le> diff \<and> diff \<le> 6 then Some diff else None)
      | (Bar, Pt entry_point) \<Rightarrow>
          (let die = (if player = W then entry_point else 25 - entry_point)
           in if 1 \<le> die \<and> die \<le> 6 then Some die else None)
      | (Pt s, Off) \<Rightarrow>
          (if player = W \<and> \<not> (19 \<le> s \<and> s \<le> 24) then None
           else if player = B \<and> \<not> (1 \<le> s \<and> s \<le> 6) then None
           else let needed = (if player = W then 25 - s else s)
                in if 1 \<le> needed \<and> needed \<le> 6 then Some needed else None)
      | _ \<Rightarrow> None)"

text \<open>The body of the loop over \<open>pos\<close> in \<open>_get_single_moves_for_die\<close>: the moves it appends.\<close>

definition moves_from_point :: "player \<Rightarrow> int \<Rightarrow> game \<Rightarrow> bool \<Rightarrow> int \<Rightarrow> move list" where
  "moves_from_point player die_value gs all_checkers_home pos =
     (if cell gs pos * p_sign player > 0 then
        (let dest_point = (if player = W then pos + die_value else pos - die_value)
         in if 1 \<le> dest_point \<and> dest_point \<le> 24 then
              (let dest_count = cell gs dest_point
               in if dest_count * p_sign player \<ge> 0 \<or> \<bar>dest_count\<bar> = 1
                  then [(Pt pos, Pt dest_point)] else [])
            else if all_checkers_home then
              (if can_bear_off player pos die_value gs then [(Pt pos, Off)] else [])
            else [])
      else [])"

definition get_single_moves_for_die :: "player \<Rightarrow> int \<Rightarrow> game \<Rightarrow> move list" where
  "get_single_moves_for_die player die_value gs =
     (if bar_of player gs > 0 then
        (let entry_point = (if player = W then die_value else 25 - die_value)
         in if 1 \<le> entry_point \<and> entry_point \<le> 24 then
              (let dest_count = cell gs entry_point
               in if dest_count * p_sign player \<ge> 0 \<or> \<bar>dest_count\<bar> = 1
                  then [(Bar, Pt entry_point)] else [])
            else [])
      else
        (let all_checkers_home = check_all_pieces_home player gs
         in concat (map (moves_from_point player die_value gs all_checkers_home) [1..24])))"

text \<open>
  \<open>make_move_base_logic\<close> mutates the object it is called on and returns a flag; the model
  returns the flag and the object after the call. On a 24-cell board no statement of its
  \<open>try\<close> block raises (every index is checked to be in 1..24 first), so the \<open>except\<close>
  branch is not modelled. Where the destination is blocked the source cell is restored but a
  bar count that was decremented is not; where the destination is no point at all both are.
\<close>

definition take_from_source :: "game \<Rightarrow> player \<Rightarrow> endpoint \<Rightarrow> game option" where
  "take_from_source gs player_base src_base =
     (case src_base of
        Bar \<Rightarrow>
          (if player_base = W
           then (if white_bar gs > 0 then Some (gs\<lparr>white_bar := white_bar gs - 1\<rparr>) else None)
           else (if black_bar gs > 0 then Some (gs\<lparr>black_bar := black_bar gs - 1\<rparr>) else None))
      | Pt s \<Rightarrow>
          (if 1 \<le> s \<and> s \<le> 24 then
             (if cell gs s * p_sign player_base \<le> 0 then None
              else Some (gs\<lparr>board := (board gs)[nat (s - 1) := cell gs s - p_sign player_base]\<rparr>))
           else None)
      | Off \<Rightarrow> None)"

definition restore_source :: "game \<Rightarrow> player \<Rightarrow> endpoint \<Rightarrow> game" where
  "restore_source gs player_base src_base =
     (case src_base of
        Pt s \<Rightarrow> gs\<lparr>board := (board gs)[nat (s - 1) := cell gs s + p_sign player_base]\<rparr>
      | _ \<Rightarrow> gs)"

definition make_move_base_logic :: "game \<Rightarrow> player \<Rightarrow> endpoint \<Rightarrow> endpoint \<Rightarrow> bool \<times> game" where
  "make_move_base_logic gs player_base src_base dst_base =
     (case take_from_source gs player_base src_base of
        None \<Rightarrow> (False, gs)
      | Some g1 \<Rightarrow>
          (case dst_base of
             Off \<Rightarrow>
               (True, if player_base = W then g1\<lparr>white_off := white_off g1 + 1\<rparr>
                      else g1\<lparr>black_off := black_off g1 + 1\<rparr>)
           | Pt d \<Rightarrow>
               (if 1 \<le> d \<and> d \<le> 24 then
                  (let dest_count = cell g1 d
                   in if dest_count * p_sign player_base < 0 \<and> \<bar>dest_count\<bar> \<ge> 2
                      then (False, restore_source g1 player_base src_base)
                      else if dest_count * p_sign player_base < 0 \<and> \<bar>dest_count\<bar> = 1
                      then
                        (let g2 = (if player_base = W then g1\<lparr>black_bar := black_bar g1 + 1\<rparr>
                                   else g1\<lparr>white_bar := white_bar g1 + 1\<rparr>)
                         in (True, g2\<lparr>board := (board g2)[nat (d - 1) := p_sign player_base]\<rparr>))
                      else
                        (True, g1\<lparr>board := (board g1)[nat (d - 1) := dest_count + p_sign player_base]\<rparr>))
                else
                  (let g2 = restore_source g1 player_base src_base
                   in (False, if src_base = Bar
                              then (if player_base = W then g2\<lparr>white_bar := white_bar g2 + 1\<rparr>
                                    else g2\<lparr>black_bar := black_bar g2 + 1\<rparr>)
                              else g2)))
           | Bar \<Rightarrow>
               (let g2 = restore_source g1 player_base src_base
                in (False, if src_base = Bar
                           then (if player_base = W then g2\<lparr>white_bar := white_bar g2 + 1\<rparr>
                                 else g2\<lparr>black_bar := black_bar g2 + 1\<rparr>)
                           else g2))))"

text \<open>
  One ordering of a two-die play, as \<open>_get_strictly_playable_dice\<close> tests it: some move of
  the first die, applied to a copy of the state, leaves a move for the second die.
\<close>

definition plays_then :: "game \<Rightarrow> player \<Rightarrow> int \<Rightarrow> int \<Rightarrow> bool" where
  "plays_then gs player first_die second_die =
     list_ex (\<lambda>mv. case make_move_base_logic gs player (fst mv) (snd mv) of
                     (ok, temp_game) \<Rightarrow>
                        ok \<and> get_single_moves_for_die player second_die temp_game \<noteq> [])
       (get_single_moves_for_die player first_die gs)"

definition get_strictly_playable_dice :: "game \<Rightarrow> int list \<Rightarrow> player \<Rightarrow> int list" where
  "get_strictly_playable_dice gs dice_list player =
     (if dice_list = [] then []
      else
        let unique_dice = rev (sort (remdups dice_list));
            individually_playable_dice =
              filter (\<lambda>die. get_single_moves_for_die player die gs \<noteq> []) unique_dice
        in if individually_playable_dice = [] then []
           else if length dice_list = 2 \<and> dice_list ! 0 \<noteq> dice_list ! 1 then
             (let smaller_die = min (dice_list ! 0) (dice_list ! 1);
                  larger_die = max (dice_list ! 0) (dice_list ! 1);
                  can_play_larger = (larger_die \<in> set individually_playable_dice);
                  can_play_smaller = (smaller_die \<in> set individually_playable_dice)
              in if can_play_larger \<and> \<not> can_play_smaller then [larger_die]
                 else if \<not> can_play_larger \<and> can_play_smaller then [smaller_die]
                 else if can_play_larger \<and> can_play_smaller then
                   (let can_play_both_sequence =
                          (plays_then gs player larger_die smaller_die \<or>
                           plays_then gs player smaller_die larger_die)
                    in if \<not> can_play_both_sequence \<and> can_play_larger then [larger_die]
                       else individually_playable_dice)
                 else [])
           else individually_playable_dice)"

text \<open>
  \<open>get_legal_actions\<close> collects the moves in a Python set and returns them as a list, in an
  order the language does not fix; the model lists them in the order of first occurrence.
  Only membership in the list is used.
\<close>

definition get_legal_actions :: "game \<Rightarrow> move list" where
  "get_legal_actions gs =
     (let player = current_player gs
      in if dice gs = [] then []
         else remdups (concat (map (\<lambda>die_val. get_single_moves_for_die player die_val gs)
                                 (get_strictly_playable_dice gs (dice gs) player))))"

definition is_game_over :: "game \<Rightarrow> bool \<times> game" where
  "is_game_over gs =
     (if white_off gs \<ge> 15 then (True, gs\<lparr>winner := Some (Won W)\<rparr>)
      else if black_off gs \<ge> 15 then (True, gs\<lparr>winner := Some (Won B)\<rparr>)
      else (False, gs))"

definition w_board :: "int list \<Rightarrow> int" where
  "w_board xs = sum_list (filter (\<lambda>c. c > 0) xs)"

definition b_board :: "int list \<Rightarrow> int" where
  "b_board xs = sum_list (map abs (filter (\<lambda>c. c < 0) xs))"

definition get_total_checker_count :: "game \<Rightarrow> int \<times> int" where
  "get_total_checker_count gs =
     (w_board (board gs) + white_bar gs + white_off gs,
      b_board (board gs) + black_bar gs + black_off gs)"

section \<open>Applying a move to the live game\<close>

text \<open>
  \<open>make_move\<close> indexes the board with \<open>src - 1\<close> and \<open>dst - 1\<close> without a range check, so
  Python's list indexing is modelled: a negative index counts from the end, and an index
  outside the list raises \<open>IndexError\<close>. \<open>TypeError\<close> stands for \<open>'off' - 1\<close> and
  \<open>'bar' - 1\<close>, which the die lookup before the \<open>try\<close> block excludes.
\<close>

datatype py_error = IndexError | ValueError | TypeError

definition py_index :: "int list \<Rightarrow> int \<Rightarrow> nat option" where
  "py_index xs i =
     (if 0 \<le> i \<and> i < int (length xs) then Some (nat i)
      else if i < 0 \<and> - int (length xs) \<le> i then Some (nat (int (length xs) + i))
      else None)"

text \<open>The die \<open>make_move\<close> decides to consume, \<open>None\<close> when it finds none.\<close>

definition overshoot_die :: "game \<Rightarrow> endpoint \<Rightarrow> endpoint \<Rightarrow> int option" where
  "overshoot_die gs src dst =
     (let player = current_player gs
      in case (src, dst) of
           (Pt s, Off) \<Rightarrow>
             (let needed_dist = (if player = W then 25 - s else s);
                  possible_overshoot_dice = sort (filter (\<lambda>d. d \<ge> needed_dist) (dice gs))
              in find (\<lambda>potential_die. check_all_pieces_home player gs \<and>
                                        can_bear_off player s potential_die gs)
                   possible_overshoot_dice)
         | _ \<Rightarrow> None)"

definition die_to_remove :: "game \<Rightarrow> endpoint \<Rightarrow> endpoint \<Rightarrow> int option" where
  "die_to_remove gs src dst =
     (case get_die_for_move src dst (current_player gs) of
        Some nominal_die \<Rightarrow>
          (if nominal_die \<in> set (dice gs) then Some nominal_die else overshoot_die gs src dst)
      | None \<Rightarrow> overshoot_die gs src dst)"

text \<open>The statements of the \<open>try\<close> block up to the removal of the die.\<close>

definition leave_source :: "game \<Rightarrow> endpoint \<Rightarrow> py_error + game" where
  "leave_source gs src =
     (let player = current_player gs
      in case src of
           Bar \<Rightarrow> Inr (if player = W then gs\<lparr>white_bar := white_bar gs - 1\<rparr>
                        else gs\<lparr>black_bar := black_bar gs - 1\<rparr>)
         | Pt s \<Rightarrow>
             (case py_index (board gs) (s - 1) of
                None \<Rightarrow> Inl IndexError
              | Some i \<Rightarrow> Inr (gs\<lparr>board := (board gs)[i := board gs ! i - p_sign player]\<rparr>))
         | Off \<Rightarrow> Inl TypeError)"

definition enter_destination :: "game \<Rightarrow> endpoint \<Rightarrow> py_error + game" where
  "enter_destination gs dst =
     (let player = current_player gs
      in case dst of
           Off \<Rightarrow> Inr (if player = W then gs\<lparr>white_off := white_off gs + 1\<rparr>
                        else gs\<lparr>black_off := black_off gs + 1\<rparr>)
         | Pt d \<Rightarrow>
             (case py_index (board gs) (d - 1) of
                None \<Rightarrow> Inl IndexError
              | Some j \<Rightarrow>
                  (let dest_count = board gs ! j
                   in if dest_count * p_sign player < 0 then
                        (if \<bar>dest_count\<bar> = 1 then
                           (let g1 = (if player = W then gs\<lparr>black_bar := black_bar gs + 1\<rparr>
                                      else gs\<lparr>white_bar := white_bar gs + 1\<rparr>)
                            in Inr (g1\<lparr>board := (board g1)[j := p_sign player]\<rparr>))
                         else Inl ValueError)
                      else Inr (gs\<lparr>board := (board gs)[j := dest_count + p_sign player]\<rparr>)))
         | Bar \<Rightarrow> Inl TypeError)"

definition apply_move_steps :: "game \<Rightarrow> endpoint \<Rightarrow> endpoint \<Rightarrow> py_error + game" where
  "apply_move_steps gs src dst =
     (case leave_source gs src of
        Inl e \<Rightarrow> Inl e
      | Inr g1 \<Rightarrow> enter_destination g1 dst)"

text \<open>
  \<open>make_move\<close>: the flag it returns and the object after the call. In the \<open>except\<close> branch
  the board, the bar and off counts and the dice are set back to the values saved before the
  \<open>try\<close>, the legal moves are computed again and the winner is \<open>"ERROR"\<close>. Where the counts
  are wrong after the move the winner is \<open>"ERROR"\<close> and nothing is set back.
\<close>

definition make_move :: "game \<Rightarrow> endpoint \<Rightarrow> endpoint \<Rightarrow> bool \<times> game" where
  "make_move gs src dst =
     (case die_to_remove gs src dst of
        None \<Rightarrow> (False, gs)
      | Some die \<Rightarrow>
          (case apply_move_steps gs src dst of
             Inl e_unexpected \<Rightarrow>
               (False, gs\<lparr>available_moves := get_legal_actions gs, winner := Some ERROR\<rparr>)
           | Inr g1 \<Rightarrow>
               (let g2 = g1\<lparr>dice := remove1 die (dice g1)\<rparr>;
                    g3 = g2\<lparr>available_moves := get_legal_actions g2\<rparr>;
                    g4 = snd (is_game_over g3);
                    (w_final, b_final) = get_total_checker_count g4
                in if w_final \<noteq> 15 \<or> b_final \<noteq> 15
                   then (False, g4\<lparr>winner := Some ERROR\<rparr>)
                   else (True, g4))))"

text \<open>\<open>roll_dice\<close>, with the two values \<open>random.randint(1, 6)\<close> returns as arguments.\<close>

definition roll_dice :: "int \<Rightarrow> int \<Rightarrow> game \<Rightarrow> game" where
  "roll_dice d1 d2 gs =
     (let g1 = gs\<lparr>dice := (if d1 = d2 then replicate 4 d1 else [d1, d2])\<rparr>
      in g1\<lparr>available_moves := get_legal_actions g1\<rparr>)"

definition switch_player :: "game \<Rightarrow> game" where
  "switch_player gs =
     gs\<lparr>current_player := (if current_player gs = W then B else W),
        dice := [], available_moves := []\<rparr>"

text \<open>The object the constructor builds: the standard starting position, white to move.\<close>

definition initial_game :: game where
  "initial_game =
     \<lparr>board = [2, 0, 0, 0, 0, - 5, 0, - 3, 0, 0, 0, 5,
               - 5, 0, 0, 0, 3, 0, 5, 0, 0, 0, 0, - 2],
      white_bar = 0, black_bar = 0, white_off = 0, black_off = 0,
      winner = None, current_player = W, dice = [], available_moves = []\<rparr>"

text \<open>
  The states the game can be in: the starting position, and from a state the result of
  \<open>make_move\<close> on a legal move, of \<open>make_move_base_logic\<close> on a generated move, of a roll and
  of the change of turn.
\<close>

inductive reachable :: "game \<Rightarrow> bool" where
  start: "reachable initial_game"
| moved: "reachable gs \<Longrightarrow> (src, dst) \<in> set (get_legal_actions gs) \<Longrightarrow>
          reachable (snd (make_move gs src dst))"
| simulated: "reachable gs \<Longrightarrow> (src, dst) \<in> set (get_single_moves_for_die player die gs) \<Longrightarrow>
          reachable (snd (make_move_base_logic gs player src dst))"
| rolled: "reachable gs \<Longrightarrow> reachable (roll_dice d1 d2 gs)"
| switched: "reachable gs \<Longrightarrow> reachable (switch_player gs)"

section \<open>Turn-sequence enumerator\<close>

text \<open>
  \<open>generate_possible_next_states_with_sequences\<close> keeps two dictionaries while its inner
  function recurses: \<open>memo\<close>, used as a set of keys, and \<open>possible_final_outcomes\<close>, whose
  values are read in insertion order at the end. The first is a list of keys here, the second
  an association list in insertion order; both are passed through the recursion. The list
  \<open>sequence_so_far\<close>, appended to before the recursive call and popped after it, is passed
  as a value.
\<close>

type_synonym board_key = "int list \<times> int \<times> int \<times> int \<times> int \<times> player"

type_synonym outcome = "game \<times> move list"

definition board_tuple :: "game \<Rightarrow> board_key" where
  "board_tuple gs =
     (board gs, white_bar gs, black_bar gs, white_off gs, black_off gs, current_player gs)"

definition record_outcome ::
    "game \<Rightarrow> move list \<Rightarrow> (board_key \<times> outcome) list \<Rightarrow> (board_key \<times> outcome) list" where
  "record_outcome state_now sequence_so_far outs =
     (case map_of outs (board_tuple state_now) of
        None \<Rightarrow> outs @ [(board_tuple state_now, (state_now, sequence_so_far))]
      | Some old \<Rightarrow>
          (if length sequence_so_far < length (snd old)
           then AList.update (board_tuple state_now) (state_now, sequence_so_far) outs
           else outs))"

definition consumed_die :: "player \<Rightarrow> game \<Rightarrow> int list \<Rightarrow> int \<Rightarrow> move \<Rightarrow> int option" where
  "consumed_die player state_now dice_rem die_val mv =
     (if get_die_for_move (fst mv) (snd mv) player = Some die_val \<and> die_val \<in> set dice_rem
      then Some die_val
      else
        (case mv of
           (Pt s, Off) \<Rightarrow>
             (let needed_dist = (if player = W then 25 - s else s)
              in if die_val \<ge> needed_dist \<and> can_bear_off player s die_val state_now \<and>
                    die_val \<in> set dice_rem
                 then
                   (case sort (filter (\<lambda>d. d \<ge> needed_dist \<and> can_bear_off player s d state_now)
                                 dice_rem) of
                      [] \<Rightarrow> None
                    | smallest_valid # _ \<Rightarrow>
                        (if die_val = smallest_valid then Some die_val else None))
                 else None)
         | _ \<Rightarrow> None))"

function find_sequences_recursive ::
    "player \<Rightarrow> game \<Rightarrow> int list \<Rightarrow> move list \<Rightarrow>
     (board_key \<times> int list) list \<times> (board_key \<times> outcome) list \<Rightarrow>
     (board_key \<times> int list) list \<times> (board_key \<times> outcome) list" where
  "find_sequences_recursive player state_now dice_rem sequence_so_far mo =
     (if (board_tuple state_now, dice_rem) \<in> set (fst mo) then mo
      else
        let memo1 = (board_tuple state_now, dice_rem) # fst mo
        in if dice_rem = [] then (memo1, record_outcome state_now sequence_so_far (snd mo))
           else
             let allowed_next_dice = get_strictly_playable_dice state_now dice_rem player
             in if allowed_next_dice = []
                then (memo1, record_outcome state_now sequence_so_far (snd mo))
                else
                  let mo2 =
                        fold (\<lambda>die_val acc.
                                fold (\<lambda>mv acc2.
                                        case consumed_die player state_now dice_rem die_val mv of
                                          None \<Rightarrow> acc2
                                        | Some c \<Rightarrow>
                                            (if fst (make_move_base_logic state_now player (fst mv) (snd mv))
                                                \<and> c \<in> set dice_rem
                                             then find_sequences_recursive player
                                                    (snd (make_move_base_logic state_now player (fst mv) (snd mv)))
                                                    (sort (remove1 c dice_rem))
                                                    (sequence_so_far @ [mv]) acc2
                                             else acc2))
                                   (get_single_moves_for_die player die_val state_now) acc)
                          allowed_next_dice (memo1, snd mo);
                      found_at_least_one_move_this_level =
                        list_ex (\<lambda>die_val. get_single_moves_for_die player die_val state_now \<noteq> [])
                          allowed_next_dice
                  in if \<not> found_at_least_one_move_this_level
                     then (fst mo2, record_outcome state_now sequence_so_far (snd mo2))
                     else mo2)"
  by pat_completeness auto
termination
  by (relation "measure (\<lambda>(player, state_now, dice_rem, sequence_so_far, mo). length dice_rem)")
     (auto simp: length_remove1 intro: diff_less length_pos_if_in_set)

declare find_sequences_recursive.simps [simp del]

text \<open>The values of \<open>possible_final_outcomes\<close> after the searches, for a roll that is not empty.\<close>

definition initial_dice_perms :: "int list \<Rightarrow> int list list" where
  "initial_dice_perms dice_tuple =
     (if length dice_tuple = 4 then [dice_tuple]
      else if length dice_tuple = 2 then
        (let d1 = dice_tuple ! 0; d2 = dice_tuple ! 1
         in if d1 \<noteq> d2 then [[d1, d2], [d2, d1]] else [[d1, d1]])
      else [dice_tuple])"

definition possible_final_outcomes :: "game \<Rightarrow> int list \<Rightarrow> player \<Rightarrow> outcome list" where
  "possible_final_outcomes current_game_state dice_tuple player =
     map snd (snd (fold (\<lambda>initial_dice acc.
                           find_sequences_recursive player
                             (current_game_state\<lparr>dice := initial_dice\<rparr>) (sort initial_dice) [] acc)
                     (initial_dice_perms dice_tuple) ([], [])))"

definition generate_possible_next_states_with_sequences ::
    "game \<Rightarrow> int list \<Rightarrow> player \<Rightarrow> outcome list" where
  "generate_possible_next_states_with_sequences current_game_state dice_tuple player =
     (if dice_tuple = [] then [(current_game_state, [])]
      else
        let outs = possible_final_outcomes current_game_state dice_tuple player
        in if outs = [] then [(current_game_state, [])]
           else
             let max_len = Max (set (map (\<lambda>(st, sq). length sq) outs));
                 final_results =
                   (if max_len = 0 \<and> length outs \<ge> 1 then [outs ! 0]
                    else filter (\<lambda>(st, sq). length sq = max_len) outs)
             in if final_results = [] \<and> outs \<noteq> [] then outs else final_results)"

section \<open>Sampled minimax\<close>

text \<open>
  A score is a Python float: a finite value, one of the two infinities, or the
  not-a-number that \<open>inf + (-inf)\<close> gives. Finite values are real numbers here; rounding is
  not modelled. Comparisons with not-a-number are false, and the built-in \<open>max(a, b)\<close> and
  \<open>min(a, b)\<close> return \<open>a\<close> unless \<open>b\<close> is strictly greater (smaller).
\<close>

datatype score = NegInf | Fin real | PosInf | NaN

fun gt_score :: "score \<Rightarrow> score \<Rightarrow> bool" where
  "gt_score NaN b = False"
| "gt_score a NaN = False"
| "gt_score NegInf b = False"
| "gt_score (Fin x) NegInf = True"
| "gt_score (Fin x) (Fin y) = (x > y)"
| "gt_score (Fin x) PosInf = False"
| "gt_score PosInf PosInf = False"
| "gt_score PosInf b = True"

definition le_score :: "score \<Rightarrow> score \<Rightarrow> bool" where
  "le_score a b = (a \<noteq> NaN \<and> b \<noteq> NaN \<and> \<not> gt_score a b)"

definition py_max :: "score \<Rightarrow> score \<Rightarrow> score" where
  "py_max a b = (if gt_score b a then b else a)"

definition py_min :: "score \<Rightarrow> score \<Rightarrow> score" where
  "py_min a b = (if gt_score a b then b else a)"

fun add_score :: "score \<Rightarrow> score \<Rightarrow> score" where
  "add_score NaN b = NaN"
| "add_score a NaN = NaN"
| "add_score PosInf NegInf = NaN"
| "add_score NegInf PosInf = NaN"
| "add_score PosInf b = PosInf"
| "add_score a PosInf = PosInf"
| "add_score NegInf b = NegInf"
| "add_score a NegInf = NegInf"
| "add_score (Fin x) (Fin y) = Fin (x + y)"

fun div_score :: "score \<Rightarrow> nat \<Rightarrow> score" where
  "div_score (Fin x) n = Fin (x / real n)"
| "div_score a n = a"

definition MAX_DEPTH :: nat where
  "MAX_DEPTH = 3"

definition NUM_DICE_SAMPLES :: nat where
  "NUM_DICE_SAMPLES = 14"

text \<open>
  The random source is a sequence of integers and the position of the next one to draw;
  each \<open>random.randint(1, 6)\<close> takes one. \<open>_get_random_dice_sample\<close> draws the samples of
  one chance node.
\<close>

definition get_random_dice_sample :: "(nat \<Rightarrow> int) \<Rightarrow> nat \<Rightarrow> (int \<times> int) list \<times> nat" where
  "get_random_dice_sample rnd r =
     (map (\<lambda>i. (rnd (r + 2 * i), rnd (r + 2 * i + 1))) [0..<NUM_DICE_SAMPLES],
      r + 2 * NUM_DICE_SAMPLES)"

text \<open>
  The loop over the outcomes of one sampled roll, with its \<open>break\<close>. The argument \<open>ev\<close> is
  the recursive call one ply down, as a function of the state, the two bounds and the
  position in the random source; it returns the score and the new position.
\<close>

fun max_branches ::
    "(game \<Rightarrow> score \<Rightarrow> score \<Rightarrow> nat \<Rightarrow> score \<times> nat) \<Rightarrow> outcome list \<Rightarrow>
     score \<Rightarrow> score \<Rightarrow> score \<Rightarrow> nat \<Rightarrow> score \<times> score \<times> nat" where
  "max_branches ev [] best_eval_for_this_roll alpha beta r = (best_eval_for_this_roll, alpha, r)"
| "max_branches ev (out # rest) best_eval_for_this_roll alpha beta r =
     (let (evaluation, r1) = ev (fst out) alpha beta r;
          best1 = py_max best_eval_for_this_roll evaluation;
          alpha1 = py_max alpha best1
      in if le_score beta alpha1 then (best1, alpha1, r1)
         else max_branches ev rest best1 alpha1 beta r1)"

fun min_branches ::
    "(game \<Rightarrow> score \<Rightarrow> score \<Rightarrow> nat \<Rightarrow> score \<times> nat) \<Rightarrow> outcome list \<Rightarrow>
     score \<Rightarrow> score \<Rightarrow> score \<Rightarrow> nat \<Rightarrow> score \<times> score \<times> nat" where
  "min_branches ev [] worst_eval_for_this_roll alpha beta r = (worst_eval_for_this_roll, beta, r)"
| "min_branches ev (out # rest) worst_eval_for_this_roll alpha beta r =
     (let (evaluation, r1) = ev (fst out) alpha beta r;
          worst1 = py_min worst_eval_for_this_roll evaluation;
          beta1 = py_min beta worst1
      in if le_score beta1 alpha then (worst1, beta1, r1)
         else min_branches ev rest worst1 alpha beta1 r1)"

definition no_move_outcome :: "outcome list \<Rightarrow> bool" where
  "no_move_outcome possible_outcomes =
     (possible_outcomes = [] \<or> (length possible_outcomes = 1 \<and> snd (possible_outcomes ! 0) = []))"

text \<open>
  The body of the loop over the sampled rolls: the value of the roll, the bound the body
  may have tightened (alpha at a maximizing node, beta at a minimizing one) and the position
  in the random source.
\<close>

definition roll_search_max ::
    "(game \<Rightarrow> score \<Rightarrow> score \<Rightarrow> nat \<Rightarrow> score \<times> nat) \<Rightarrow> game \<Rightarrow> player \<Rightarrow>
     int \<times> int \<Rightarrow> score \<Rightarrow> score \<Rightarrow> nat \<Rightarrow> score \<times> score \<times> nat" where
  "roll_search_max ev gs current_turn_player sample alpha beta r =
     (let d1 = fst sample; d2 = snd sample;
          dice_for_turn = (if d1 = d2 then [d1, d2, d1, d2] else [d1, d2]);
          possible_outcomes =
            generate_possible_next_states_with_sequences gs dice_for_turn current_turn_player
      in if no_move_outcome possible_outcomes
         then (let (v, r1) = ev gs alpha beta r in (v, alpha, r1))
         else max_branches ev possible_outcomes NegInf alpha beta r)"

definition roll_search_min ::
    "(game \<Rightarrow> score \<Rightarrow> score \<Rightarrow> nat \<Rightarrow> score \<times> nat) \<Rightarrow> game \<Rightarrow> player \<Rightarrow>
     int \<times> int \<Rightarrow> score \<Rightarrow> score \<Rightarrow> nat \<Rightarrow> score \<times> score \<times> nat" where
  "roll_search_min ev gs current_turn_player sample alpha beta r =
     (let d1 = fst sample; d2 = snd sample;
          dice_for_turn = (if d1 = d2 then [d1, d2, d1, d2] else [d1, d2]);
          possible_outcomes =
            generate_possible_next_states_with_sequences gs dice_for_turn current_turn_player
      in if no_move_outcome possible_outcomes
         then (let (v, r1) = ev gs alpha beta r in (v, beta, r1))
         else min_branches ev possible_outcomes PosInf alpha beta r)"

text \<open>
  The loops over the sampled rolls. Their variables are \<open>accumulated_score\<close>,
  \<open>num_samples_processed\<close>, the position in the random source, and \<open>alpha\<close> (\<open>beta\<close> at a
  minimizing node), which the body assigns and the next iteration reads. The last component
  is not in the source: it lists, for each sampled roll in turn, the bounds \<open>(alpha, beta)\<close>
  when its iteration starts and when it ends.
\<close>

type_synonym bounds_trace = "((score \<times> score) \<times> (score \<times> score)) list"

fun max_samples ::
    "(game \<Rightarrow> score \<Rightarrow> score \<Rightarrow> nat \<Rightarrow> score \<times> nat) \<Rightarrow> game \<Rightarrow> player \<Rightarrow>
     (int \<times> int) list \<Rightarrow> score \<Rightarrow> score \<Rightarrow> score \<Rightarrow> nat \<Rightarrow> nat \<Rightarrow> bounds_trace \<Rightarrow>
     score \<times> nat \<times> nat \<times> bounds_trace" where
  "max_samples ev gs ctp [] alpha beta accumulated_score num_samples_processed r tr =
     (accumulated_score, num_samples_processed, r, tr)"
| "max_samples ev gs ctp (sample # rest) alpha beta accumulated_score num_samples_processed r tr =
     (let (best_eval_for_this_roll, alpha1, r1) = roll_search_max ev gs ctp sample alpha beta r
      in max_samples ev gs ctp rest alpha1 beta
           (add_score accumulated_score best_eval_for_this_roll) (num_samples_processed + 1) r1
           (tr @ [((alpha, beta), (alpha1, beta))]))"

fun min_samples ::
    "(game \<Rightarrow> score \<Rightarrow> score \<Rightarrow> nat \<Rightarrow> score \<times> nat) \<Rightarrow> game \<Rightarrow> player \<Rightarrow>
     (int \<times> int) list \<Rightarrow> score \<Rightarrow> score \<Rightarrow> score \<Rightarrow> nat \<Rightarrow> nat \<Rightarrow> bounds_trace \<Rightarrow>
     score \<times> nat \<times> nat \<times> bounds_trace" where
  "min_samples ev gs ctp [] alpha beta accumulated_score num_samples_processed r tr =
     (accumulated_score, num_samples_processed, r, tr)"
| "min_samples ev gs ctp (sample # rest) alpha beta accumulated_score num_samples_processed r tr =
     (let (worst_eval_for_this_roll, beta1, r1) = roll_search_min ev gs ctp sample alpha beta r
      in min_samples ev gs ctp rest alpha beta1
           (add_score accumulated_score worst_eval_for_this_roll) (num_samples_processed + 1) r1
           (tr @ [((alpha, beta), (alpha, beta1))]))"

definition chance_node ::
    "(game \<Rightarrow> score \<Rightarrow> score \<Rightarrow> nat \<Rightarrow> score \<times> nat) \<Rightarrow> game \<Rightarrow> player \<Rightarrow> player \<Rightarrow>
     (int \<times> int) list \<Rightarrow> score \<Rightarrow> score \<Rightarrow> nat \<Rightarrow> score \<times> nat \<times> nat \<times> bounds_trace" where
  "chance_node ev gs current_turn_player maximizing_player sampled_dice_rolls alpha beta r =
     (if current_turn_player = maximizing_player
      then max_samples ev gs current_turn_player sampled_dice_rolls alpha beta (Fin 0) 0 r []
      else min_samples ev gs current_turn_player sampled_dice_rolls alpha beta (Fin 0) 0 r [])"

text \<open>
  \<open>get_minimax_score_sampled\<close>: the score and the position in the random source after the
  call. The depth is a natural number (the callers pass \<open>MAX_DEPTH - 1\<close> and count down to
  0). The evaluator \<open>evaluate_position_heuristic\<close>, with the phase and the weights chosen
  for it, computes in floating point and enters the search only as the score of a leaf; it
  is the argument \<open>h\<close>. \<open>is_game_over\<close> sets the winner of the object it is called on; the
  search never reads that field again, and \<open>select_ai_move_minimax\<close> below accounts for it
  on the state it returns.
\<close>

fun get_minimax_score_sampled ::
    "(game \<Rightarrow> player \<Rightarrow> score) \<Rightarrow> (nat \<Rightarrow> int) \<Rightarrow> game \<Rightarrow> player \<Rightarrow> nat \<Rightarrow> player \<Rightarrow>
     score \<Rightarrow> score \<Rightarrow> nat \<Rightarrow> score \<times> nat" where
  "get_minimax_score_sampled h rnd gs current_turn_player depth maximizing_player alpha beta r =
     (if fst (is_game_over gs) then
        (if winner (snd (is_game_over gs)) = Some (Won maximizing_player) then (PosInf, r)
         else if winner (snd (is_game_over gs)) \<noteq> None then (NegInf, r)
         else (Fin 0, r))
      else
        (case depth of
           0 \<Rightarrow> (h gs maximizing_player, r)
         | Suc d \<Rightarrow>
             (let opponent_player = (if current_turn_player = W then B else W);
                  (sampled_dice_rolls, r0) = get_random_dice_sample rnd r;
                  (accumulated_score, num_samples_processed, r1, tr) =
                    chance_node
                      (\<lambda>st a b rr. get_minimax_score_sampled h rnd st opponent_player d
                                      maximizing_player a b rr)
                      gs current_turn_player maximizing_player sampled_dice_rolls alpha beta r0
              in (if num_samples_processed > 0
                  then div_score accumulated_score num_samples_processed else Fin 0, r1))))"

declare get_minimax_score_sampled.simps [simp del]

text \<open>The chance node of a call with depth \<open>Suc d\<close> on a state that is not final.\<close>

definition chance_node_of ::
    "(game \<Rightarrow> player \<Rightarrow> score) \<Rightarrow> (nat \<Rightarrow> int) \<Rightarrow> game \<Rightarrow> player \<Rightarrow> nat \<Rightarrow> player \<Rightarrow>
     score \<Rightarrow> score \<Rightarrow> nat \<Rightarrow> score \<times> nat \<times> nat \<times> bounds_trace" where
  "chance_node_of h rnd gs current_turn_player d maximizing_player alpha beta r =
     chance_node
       (\<lambda>st a b rr. get_minimax_score_sampled h rnd st
                       (if current_turn_player = W then B else W) d maximizing_player a b rr)
       gs current_turn_player maximizing_player
       (fst (get_random_dice_sample rnd r)) alpha beta (snd (get_random_dice_sample rnd r))"

definition bounds_of :: "score \<times> nat \<times> nat \<times> bounds_trace \<Rightarrow> bounds_trace" where
  "bounds_of res = snd (snd (snd res))"

section \<open>AI move selection\<close>

fun select_loop ::
    "(game \<Rightarrow> nat \<Rightarrow> score \<times> nat) \<Rightarrow> outcome list \<Rightarrow> score \<Rightarrow> outcome option \<Rightarrow> nat \<Rightarrow>
     score \<times> outcome option \<times> nat" where
  "select_loop ev [] best_score optimal r = (best_score, optimal, r)"
| "select_loop ev (out # rest) best_score optimal r =
     (let (score_for_state, r1) = ev (fst out) r
      in if gt_score score_for_state best_score
         then select_loop ev rest score_for_state (Some out) r1
         else select_loop ev rest best_score optimal r1)"

text \<open>
  The state object of the chosen outcome has been through \<open>get_minimax_score_sampled\<close>,
  whose first statement, \<open>is_game_over\<close>, sets its winner when a side has borne off fifteen;
  then \<open>select_ai_move_minimax\<close> clears its dice and its legal-move cache.
\<close>

definition finish_turn :: "game \<Rightarrow> game" where
  "finish_turn st = (snd (is_game_over st))\<lparr>dice := [], available_moves := []\<rparr>"

definition select_ai_move_minimax ::
    "(game \<Rightarrow> player \<Rightarrow> score) \<Rightarrow> (nat \<Rightarrow> int) \<Rightarrow> game \<Rightarrow> int list \<Rightarrow> player \<Rightarrow> nat \<Rightarrow>
     (move list \<times> game) \<times> nat" where
  "select_ai_move_minimax h rnd current_game_state dice_tuple ai_player r =
     (let possible_outcomes =
            generate_possible_next_states_with_sequences current_game_state dice_tuple ai_player
      in if no_move_outcome possible_outcomes then (([], current_game_state), r)
         else
           let opponent_player = (if ai_player = W then B else W);
               (best_score, optimal, r1) =
                 select_loop
                   (\<lambda>st rr. get_minimax_score_sampled h rnd st opponent_player (MAX_DEPTH - 1)
                                ai_player NegInf PosInf rr)
                   possible_outcomes NegInf None r;
               chosen = (case optimal of None \<Rightarrow> possible_outcomes ! 0 | Some out \<Rightarrow> out)
           in ((snd chosen, finish_turn (fst chosen)), r1))"

section \<open>Vocabulary of the statements\<close>

text \<open>The number of checkers of the other colour on a point.\<close>

definition opposing_count :: "player \<Rightarrow> game \<Rightarrow> int \<Rightarrow> int" where
  "opposing_count player gs pos =
     (if cell gs pos * p_sign player < 0 then \<bar>cell gs pos\<bar> else 0)"

definition own_checker :: "player \<Rightarrow> game \<Rightarrow> int \<Rightarrow> bool" where
  "own_checker player gs pos = (cell gs pos * p_sign player > 0)"

definition in_home :: "player \<Rightarrow> int \<Rightarrow> bool" where
  "in_home player pos = (if player = W then 19 \<le> pos \<and> pos \<le> 24 else 1 \<le> pos \<and> pos \<le> 6)"

definition dist_to_off :: "player \<Rightarrow> int \<Rightarrow> int" where
  "dist_to_off player pos = (if player = W then 25 - pos else pos)"

definition playable :: "player \<Rightarrow> game \<Rightarrow> int \<Rightarrow> bool" where
  "playable player gs die = (get_single_moves_for_die player die gs \<noteq> [])"

text \<open>
  What every generated move has: a checker of the player at its source (on the bar, or on a
  point of the board), and a destination that is off the board or a point holding at most
  one opposing checker.
\<close>

definition sound_move :: "player \<Rightarrow> game \<Rightarrow> endpoint \<Rightarrow> endpoint \<Rightarrow> bool" where
  "sound_move player gs src dst =
     ((case src of
         Bar \<Rightarrow> bar_of player gs > 0
       | Pt s \<Rightarrow> 1 \<le> s \<and> s \<le> 24 \<and> cell gs s * p_sign player > 0
       | Off \<Rightarrow> False) \<and>
      (case dst of
         Off \<Rightarrow> src \<noteq> Bar
       | Pt e \<Rightarrow> 1 \<le> e \<and> e \<le> 24 \<and> (cell gs e * p_sign player \<ge> 0 \<or> \<bar>cell gs e\<bar> = 1)
       | Bar \<Rightarrow> False))"

text \<open>
  What the search started with \<open>state_now\<close> and \<open>sequence_so_far\<close> can leave in
  \<open>possible_final_outcomes\<close>: an entry that was there before, the pair of its own arguments,
  or a longer sequence.
\<close>

definition entry_ok ::
    "game \<Rightarrow> move list \<Rightarrow> (board_key \<times> outcome) list \<Rightarrow> board_key \<times> outcome \<Rightarrow> bool" where
  "entry_ok st sq old e = (e \<in> set old \<or> snd e = (st, sq) \<or> length (snd (snd e)) > length sq)"

text \<open>The lengths of the collected sequences.\<close>

definition seq_lengths :: "outcome list \<Rightarrow> nat set" where
  "seq_lengths outs = set (map (\<lambda>(st, sq). length sq) outs)"

text \<open>\<open>a >= b\<close> on scores.\<close>

definition ge_score :: "score \<Rightarrow> score \<Rightarrow> bool" where
  "ge_score a b = (gt_score a b \<or> (a = b \<and> a \<noteq> NaN))"

text \<open>
  A trace of bounds is chained from \<open>b\<close> when its first entry starts with \<open>b\<close> and each
  later entry starts with the bounds the entry before it ended with.
\<close>

fun chained :: "score \<times> score \<Rightarrow> bounds_trace \<Rightarrow> bool" where
  "chained b [] = True"
| "chained b (e # es) = (fst e = b \<and> chained (snd e) es)"

text \<open>
  One sampled roll at a maximizing node: beta is the given one at its start and at its end,
  and alpha at its end is alpha at its start or strictly greater. At a minimizing node the
  same with alpha fixed and beta never greater.
\<close>

definition alpha_carried :: "score \<Rightarrow> (score \<times> score) \<times> (score \<times> score) \<Rightarrow> bool" where
  "alpha_carried beta e =
     (snd (fst e) = beta \<and> snd (snd e) = beta \<and>
      (fst (snd e) = fst (fst e) \<or> gt_score (fst (snd e)) (fst (fst e))))"

definition beta_carried :: "score \<Rightarrow> (score \<times> score) \<times> (score \<times> score) \<Rightarrow> bool" where
  "beta_carried alpha e =
     (fst (fst e) = alpha \<and> fst (snd e) = alpha \<and>
      (snd (snd e) = snd (fst e) \<or> gt_score (snd (fst e)) (snd (snd e))))"

text \<open>
  The scores \<open>select_ai_move_minimax\<close> computes for the outcomes, in order, each from the
  position in the random source the evaluation before it has left.
\<close>

fun score_list :: "(game \<Rightarrow> nat \<Rightarrow> score \<times> nat) \<Rightarrow> outcome list \<Rightarrow> nat \<Rightarrow> score list" where
  "score_list ev [] r = []"
| "score_list ev (out # rest) r = fst (ev (fst out) r) # score_list ev rest (snd (ev (fst out) r))"

text \<open>What the selection loop leaves in \<open>best_score\<close> and \<open>optimal\<close>.\<close>

definition kept :: "(game \<Rightarrow> nat \<Rightarrow> score \<times> nat) \<Rightarrow> outcome list \<Rightarrow> score \<Rightarrow> outcome option \<Rightarrow>
    nat \<Rightarrow> score \<times> outcome option \<times> nat \<Rightarrow> bool" where
  "kept ev outs best opt r res =
     (fst res = best \<and> fst (snd res) = opt \<and>
      (\<forall>j < length outs. \<not> gt_score (score_list ev outs r ! j) best))"

definition picked :: "(game \<Rightarrow> nat \<Rightarrow> score \<times> nat) \<Rightarrow> outcome list \<Rightarrow> score \<Rightarrow>
    nat \<Rightarrow> score \<times> outcome option \<times> nat \<Rightarrow> nat \<Rightarrow> bool" where
  "picked ev outs best r res i =
     (i < length outs \<and> fst (snd res) = Some (outs ! i) \<and>
      fst res = score_list ev outs r ! i \<and>
      gt_score (score_list ev outs r ! i) best \<and>
      (\<forall>j < length outs. \<not> gt_score (score_list ev outs r ! j) (score_list ev outs r ! i)) \<and>
      (\<forall>j < i. \<not> ge_score (score_list ev outs r ! j) (score_list ev outs r ! i)))"

text \<open>
  Some order of play of two dice: a single move of the first die after which, on the board
  that move leaves, the second die has a single move.
\<close>

definition two_moves :: "game \<Rightarrow> player \<Rightarrow> int \<Rightarrow> int \<Rightarrow> bool" where
  "two_moves gs player first_die second_die =
     (\<exists>src dst. (src, dst) \<in> set (get_single_moves_for_die player first_die gs) \<and>
        get_single_moves_for_die player second_die
          (snd (make_move_base_logic gs player src dst)) \<noteq> [])"

text \<open>Example positions: a white checker sent from point 1 to the bar; white with its last
  fifteen checkers on point 24 and black with its fifteen on point 1.\<close>

definition white_on_bar :: game where
  "white_on_bar = initial_game\<lparr>board := (board initial_game)[0 := 1], white_bar := 1\<rparr>"

definition all_on_last_point :: game where
  "all_on_last_point =
     \<lparr>board = [- 15, 0, 0, 0, 0, 0, 0, 0, 0, 0, 0, 0, 0, 0, 0, 0, 0, 0, 0, 0, 0, 0, 0, 15],
      white_bar = 0, black_bar = 0, white_off = 0, black_off = 0,
      winner = None, current_player = W, dice = [], available_moves = []\<rparr>"

text \<open>White with fourteen checkers borne off and the last one on point 24; the same
  position after that checker is borne off. An evaluator and a random source for the
  examples: the random source gives 1 at every draw.\<close>

definition last_checker :: game where
  "last_checker =
     \<lparr>board = [- 15, 0, 0, 0, 0, 0, 0, 0, 0, 0, 0, 0, 0, 0, 0, 0, 0, 0, 0, 0, 0, 0, 0, 1],
      white_bar = 0, black_bar = 0, white_off = 14, black_off = 0,
      winner = None, current_player = W, dice = [], available_moves = []\<rparr>"

definition white_has_won :: game where
  "white_has_won =
     \<lparr>board = [- 15, 0, 0, 0, 0, 0, 0, 0, 0, 0, 0, 0, 0, 0, 0, 0, 0, 0, 0, 0, 0, 0, 0, 0],
      white_bar = 0, black_bar = 0, white_off = 15, black_off = 0,
      winner = None, current_player = W, dice = [], available_moves = []\<rparr>"

definition flat_evaluator :: "game \<Rightarrow> player \<Rightarrow> score" where
  "flat_evaluator gs player = Fin 0"

definition ones :: "nat \<Rightarrow> int" where
  "ones n = 1"

section \<open>Single-move generator\<close>

text \<open>
  C6. With a checker of the player on the bar and a die in 1..6, the generator returns at most
  the one re-entry move to the entry point (the die for white, 25 minus the die for black),
  and returns it exactly when at most one opposing checker stands there. So no move from a
  board point and no bear-off is generated.
\<close>

theorem bar_reentry_only:
  assumes "bar_of player gs > 0" and "1 \<le> die" and "die \<le> 6"
  shows "get_single_moves_for_die player die gs =
           (if opposing_count player gs (if player = W then die else 25 - die) \<le> 1
            then [(Bar, Pt (if player = W then die else 25 - die))] else [])"
proof (cases player)
  case W
  with assms show ?thesis
    by (auto simp: get_single_moves_for_die_def opposing_count_def p_sign_def Let_def)
next
  case B
  with assms show ?thesis
    by (auto simp: get_single_moves_for_die_def opposing_count_def p_sign_def Let_def)
qed

theorem bar_reentry_only_witness:
  "bar_of W white_on_bar > 0 \<and>
   get_single_moves_for_die W 3 white_on_bar = [(Bar, Pt 3)]"
  using bar_reentry_only [of W white_on_bar 3]
  by (simp add: bar_of_def opposing_count_def cell_def initial_game_def white_on_bar_def p_sign_def)

lemma list_all_upto: "list_all P [i..j] \<longleftrightarrow> (\<forall>q. i \<le> q \<and> q \<le> j \<longrightarrow> P q)"
  by (auto simp: list_all_iff)

lemma all_home_iff:
  "check_all_pieces_home player gs \<longleftrightarrow>
     \<not> bar_of player gs > 0 \<and>
     (\<forall>q. 1 \<le> q \<and> q \<le> 24 \<and> own_checker player gs q \<longrightarrow> in_home player q)"
proof (cases player)
  case W
  have "(\<forall>q. 1 \<le> q \<and> q \<le> 18 \<longrightarrow> \<not> own_checker W gs q) \<longleftrightarrow>
        (\<forall>q. 1 \<le> q \<and> q \<le> 24 \<and> own_checker W gs q \<longrightarrow> 19 \<le> q \<and> q \<le> 24)"
    by (smt (verit))
  with W show ?thesis
    by (simp add: check_all_pieces_home_def list_all_upto own_checker_def in_home_def
             del: upto_rec_numeral)
next
  case B
  have "(\<forall>q. 7 \<le> q \<and> q \<le> 24 \<longrightarrow> \<not> own_checker B gs q) \<longleftrightarrow>
        (\<forall>q. 1 \<le> q \<and> q \<le> 24 \<and> own_checker B gs q \<longrightarrow> 1 \<le> q \<and> q \<le> 6)"
    by (smt (verit))
  with B show ?thesis
    by (simp add: check_all_pieces_home_def list_all_upto own_checker_def in_home_def
             del: upto_rec_numeral)
qed

lemma bear_off_from_point:
  "(Pt pos, Off) \<in> set (moves_from_point player die gs ah p) \<longleftrightarrow>
     p = pos \<and> own_checker player gs pos \<and>
     \<not> (1 \<le> (if player = W then pos + die else pos - die) \<and>
        (if player = W then pos + die else pos - die) \<le> 24) \<and>
     ah \<and> can_bear_off player pos die gs"
  by (auto simp: moves_from_point_def own_checker_def Let_def)

lemma bear_off_in_moves:
  "(Pt pos, Off) \<in> set (get_single_moves_for_die player die gs) \<longleftrightarrow>
     \<not> bar_of player gs > 0 \<and> 1 \<le> pos \<and> pos \<le> 24 \<and> own_checker player gs pos \<and>
     \<not> (1 \<le> (if player = W then pos + die else pos - die) \<and>
        (if player = W then pos + die else pos - die) \<le> 24) \<and>
     check_all_pieces_home player gs \<and> can_bear_off player pos die gs"
  by (auto simp: get_single_moves_for_die_def Let_def bear_off_from_point
           simp del: upto_rec_numeral)

lemma can_bear_off_iff:
  "can_bear_off player pos die gs \<longleftrightarrow>
     in_home player pos \<and>
     (die = dist_to_off player pos \<or>
      (die > dist_to_off player pos \<and>
       (\<forall>q. in_home player q \<and> dist_to_off player q > dist_to_off player pos
            \<longrightarrow> \<not> own_checker player gs q)))"
proof (cases player)
  case W
  show ?thesis
    unfolding W can_bear_off_def in_home_def dist_to_off_def own_checker_def Let_def
    by (auto simp: list_all_upto simp del: upto_rec_numeral)
next
  case B
  show ?thesis
    unfolding B can_bear_off_def in_home_def dist_to_off_def own_checker_def Let_def
    by (auto simp: list_all_upto simp del: upto_rec_numeral)
qed

text \<open>
  C5. The generator returns the bear-off move \<open>(pos, 'off')\<close> exactly when a checker of the
  player stands on \<open>pos\<close>, the player has no checker on the bar and none outside the home
  quadrant, and the die equals the distance from \<open>pos\<close> to off, or exceeds it while no
  checker of the player stands on a home point farther from off than \<open>pos\<close>.
\<close>

theorem bear_off_generated_iff:
  "(Pt pos, Off) \<in> set (get_single_moves_for_die player die gs) \<longleftrightarrow>
     (1 \<le> pos \<and> pos \<le> 24 \<and> own_checker player gs pos) \<and>
     (\<not> bar_of player gs > 0 \<and>
      (\<forall>q. 1 \<le> q \<and> q \<le> 24 \<and> own_checker player gs q \<longrightarrow> in_home player q)) \<and>
     (die = dist_to_off player pos \<or>
      (die > dist_to_off player pos \<and>
       (\<forall>q. in_home player q \<and> dist_to_off player q > dist_to_off player pos
            \<longrightarrow> \<not> own_checker player gs q)))"
  (is "?L \<longleftrightarrow> ?A \<and> ?H \<and> ?D")
proof
  assume ?L
  then show "?A \<and> ?H \<and> ?D"
    unfolding bear_off_in_moves can_bear_off_iff all_home_iff by blast
next
  assume r: "?A \<and> ?H \<and> ?D"
  then have h: "in_home player pos" by blast
  from r have d: "die \<ge> dist_to_off player pos" by auto
  from h d have "\<not> (1 \<le> (if player = W then pos + die else pos - die) \<and>
        (if player = W then pos + die else pos - die) \<le> 24)"
    by (auto simp: in_home_def dist_to_off_def split: if_splits)
  with r h show ?L
    unfolding bear_off_in_moves can_bear_off_iff all_home_iff by blast
qed

theorem bear_off_generated_iff_witness:
  "(Pt 24, Off) \<in> set (get_single_moves_for_die W 6 all_on_last_point) \<and>
   own_checker W all_on_last_point 24 \<and> 6 > dist_to_off W 24 \<and>
   6 \<noteq> dist_to_off W 24"
proof -
  have m: "(Pt 24, Off) \<in> set (get_single_moves_for_die W 6 all_on_last_point)"
    by code_simp
  have d: "dist_to_off W 24 = 1" by (simp add: dist_to_off_def)
  from m show ?thesis
    using bear_off_generated_iff [of 24 W 6 all_on_last_point] d by simp
qed

section \<open>Checker conservation\<close>

lemma w_board_update:
  "i < length xs \<Longrightarrow> w_board (xs[i := v]) = w_board xs - max 0 (xs ! i) + max 0 v"
proof (induction xs arbitrary: i)
  case Nil
  then show ?case by simp
next
  case (Cons x xs)
  then show ?case by (cases i) (auto simp: w_board_def)
qed

lemma b_board_update:
  "i < length xs \<Longrightarrow> b_board (xs[i := v]) = b_board xs - max 0 (- (xs ! i)) + max 0 (- v)"
proof (induction xs arbitrary: i)
  case Nil
  then show ?case by simp
next
  case (Cons x xs)
  then show ?case by (cases i) (auto simp: b_board_def)
qed

lemma moves_from_point_sound:
  "(src, dst) \<in> set (moves_from_point player die gs ah pos) \<Longrightarrow> 1 \<le> pos \<Longrightarrow> pos \<le> 24 \<Longrightarrow>
   sound_move player gs src dst"
  by (auto simp: moves_from_point_def sound_move_def Let_def split: if_splits)

lemma generated_sound:
  "(src, dst) \<in> set (get_single_moves_for_die player die gs) \<Longrightarrow> sound_move player gs src dst"
proof (cases "bar_of player gs > 0")
  case True
  assume "(src, dst) \<in> set (get_single_moves_for_die player die gs)"
  with True show ?thesis
    by (auto simp: get_single_moves_for_die_def sound_move_def Let_def split: if_splits)
next
  case False
  assume "(src, dst) \<in> set (get_single_moves_for_die player die gs)"
  with False obtain pos where "1 \<le> pos" "pos \<le> 24"
    "(src, dst) \<in> set (moves_from_point player die gs (check_all_pieces_home player gs) pos)"
    by (auto simp: get_single_moves_for_die_def Let_def simp del: upto_rec_numeral)
  then show ?thesis by (blast intro: moves_from_point_sound)
qed

lemma legal_sound:
  "(src, dst) \<in> set (get_legal_actions gs) \<Longrightarrow> sound_move (current_player gs) gs src dst"
  by (auto simp: get_legal_actions_def Let_def split: if_splits intro: generated_sound)

lemma cell_update:
  "1 \<le> p \<Longrightarrow> p \<le> int (length (board gs)) \<Longrightarrow> 1 \<le> q \<Longrightarrow>
   cell (gs\<lparr>board := (board gs)[nat (p - 1) := v]\<rparr>) q = (if q = p then v else cell gs q)"
  by (auto simp: cell_def nth_list_update)

lemma count_update:
  assumes "1 \<le> p" "p \<le> int (length (board gs))"
  shows "get_total_checker_count (gs\<lparr>board := (board gs)[nat (p - 1) := v]\<rparr>) =
           (fst (get_total_checker_count gs) - max 0 (cell gs p) + max 0 v,
            snd (get_total_checker_count gs) - max 0 (- cell gs p) + max 0 (- v))"
proof -
  from assms have "nat (p - 1) < length (board gs)" by linarith
  then show ?thesis
    by (simp add: get_total_checker_count_def w_board_update b_board_update cell_def)
qed

lemma take_from_source_sound:
  assumes "sound_move player gs src dst" "length (board gs) = 24"
  shows "\<exists>g1. take_from_source gs player src = Some g1 \<and> length (board g1) = 24 \<and>
           get_total_checker_count g1 =
             (fst (get_total_checker_count gs) - (if player = W then 1 else 0),
              snd (get_total_checker_count gs) - (if player = B then 1 else 0)) \<and>
           (\<forall>e. 1 \<le> e \<and> e \<le> 24 \<and> (cell gs e * p_sign player \<ge> 0 \<or> \<bar>cell gs e\<bar> = 1) \<longrightarrow>
                (cell g1 e * p_sign player \<ge> 0 \<or> \<bar>cell g1 e\<bar> = 1))"
proof (cases src)
  case Bar
  with assms show ?thesis
    by (cases player)
       (auto simp: sound_move_def take_from_source_def bar_of_def get_total_checker_count_def
                   cell_def)
next
  case Off
  with assms show ?thesis by (simp add: sound_move_def)
next
  case (Pt s)
  with assms have s: "1 \<le> s" "s \<le> 24" "cell gs s * p_sign player > 0"
    by (auto simp: sound_move_def)
  then have t: "take_from_source gs player src =
      Some (gs\<lparr>board := (board gs)[nat (s - 1) := cell gs s - p_sign player]\<rparr>)"
    by (simp add: take_from_source_def Pt)
  have c: "get_total_checker_count (gs\<lparr>board := (board gs)[nat (s - 1) := cell gs s - p_sign player]\<rparr>) =
             (fst (get_total_checker_count gs) - (if player = W then 1 else 0),
              snd (get_total_checker_count gs) - (if player = B then 1 else 0))"
    using s assms(2) by (cases player) (auto simp: count_update p_sign_def)
  have e: "\<forall>e. 1 \<le> e \<and> e \<le> 24 \<and> (cell gs e * p_sign player \<ge> 0 \<or> \<bar>cell gs e\<bar> = 1) \<longrightarrow>
     (cell (gs\<lparr>board := (board gs)[nat (s - 1) := cell gs s - p_sign player]\<rparr>) e * p_sign player \<ge> 0 \<or>
      \<bar>cell (gs\<lparr>board := (board gs)[nat (s - 1) := cell gs s - p_sign player]\<rparr>) e\<bar> = 1)"
    using s assms(2) by (cases player) (auto simp: cell_update p_sign_def)
  from t c e assms(2) show ?thesis by simp
qed

lemma base_logic_counts:
  assumes "sound_move player gs src dst" "length (board gs) = 24"
  shows "fst (make_move_base_logic gs player src dst) \<and>
         length (board (snd (make_move_base_logic gs player src dst))) = 24 \<and>
         get_total_checker_count (snd (make_move_base_logic gs player src dst)) =
           get_total_checker_count gs"
proof -
  from take_from_source_sound [OF assms] obtain g1 where
    t: "take_from_source gs player src = Some g1" and l: "length (board g1) = 24" and
    c: "get_total_checker_count g1 =
             (fst (get_total_checker_count gs) - (if player = W then 1 else 0),
              snd (get_total_checker_count gs) - (if player = B then 1 else 0))" and
    e: "\<forall>e. 1 \<le> e \<and> e \<le> 24 \<and> (cell gs e * p_sign player \<ge> 0 \<or> \<bar>cell gs e\<bar> = 1) \<longrightarrow>
                (cell g1 e * p_sign player \<ge> 0 \<or> \<bar>cell g1 e\<bar> = 1)"
    by blast
  show ?thesis
  proof (cases dst)
    case Bar
    with assms show ?thesis by (simp add: sound_move_def)
  next
    case Off
    with t l c show ?thesis
      by (cases player) (auto simp: make_move_base_logic_def get_total_checker_count_def)
  next
    case (Pt d)
    with assms have d: "1 \<le> d" "d \<le> 24" "cell gs d * p_sign player \<ge> 0 \<or> \<bar>cell gs d\<bar> = 1"
      by (auto simp: sound_move_def)
    with e have d1: "cell g1 d * p_sign player \<ge> 0 \<or> \<bar>cell g1 d\<bar> = 1" by blast
    have u: "\<And>v. get_total_checker_count (g1\<lparr>board := (board g1)[nat (d - 1) := v]\<rparr>) =
           (fst (get_total_checker_count g1) - max 0 (cell g1 d) + max 0 v,
            snd (get_total_checker_count g1) - max 0 (- cell g1 d) + max 0 (- v))"
      using d l by (simp add: count_update)
    show ?thesis
    proof (cases "cell g1 d * p_sign player < 0")
      case True
      with d1 have a: "\<bar>cell g1 d\<bar> = 1" by linarith
      have bw: "get_total_checker_count (g1\<lparr>black_bar := black_bar g1 + 1, board := (board g1)[nat (d - 1) := v]\<rparr>) =
         (fst (get_total_checker_count (g1\<lparr>board := (board g1)[nat (d - 1) := v]\<rparr>)),
          snd (get_total_checker_count (g1\<lparr>board := (board g1)[nat (d - 1) := v]\<rparr>)) + 1)" for v
        by (simp add: get_total_checker_count_def)
      have bb: "get_total_checker_count (g1\<lparr>white_bar := white_bar g1 + 1, board := (board g1)[nat (d - 1) := v]\<rparr>) =
         (fst (get_total_checker_count (g1\<lparr>board := (board g1)[nat (d - 1) := v]\<rparr>)) + 1,
          snd (get_total_checker_count (g1\<lparr>board := (board g1)[nat (d - 1) := v]\<rparr>)))" for v
        by (simp add: get_total_checker_count_def)
      from True a t l c d show ?thesis
        by (cases player)
           (auto simp: make_move_base_logic_def Pt Let_def bw bb u p_sign_def)
    next
      case False
      with t l c d show ?thesis
        by (cases player)
           (auto simp: make_move_base_logic_def Pt Let_def u p_sign_def)
    qed
  qed
qed

lemma py_index_point:
  "1 \<le> p \<Longrightarrow> p \<le> int (length xs) \<Longrightarrow> py_index xs (p - 1) = Some (nat (p - 1))"
  by (auto simp: py_index_def)

lemma leave_source_sound:
  assumes "sound_move (current_player gs) gs src dst" "length (board gs) = 24"
  shows "\<exists>g1. take_from_source gs (current_player gs) src = Some g1 \<and> leave_source gs src = Inr g1 \<and>
              current_player g1 = current_player gs \<and> length (board g1) = 24"
proof (cases src)
  case Bar
  with assms show ?thesis
    by (cases "current_player gs")
       (simp_all add: sound_move_def take_from_source_def leave_source_def bar_of_def)
next
  case Off
  with assms show ?thesis by (simp add: sound_move_def)
next
  case (Pt s)
  with assms have s: "1 \<le> s" "s \<le> 24" "cell gs s * p_sign (current_player gs) > 0"
    by (auto simp: sound_move_def)
  with assms(2) show ?thesis
    by (simp add: take_from_source_def leave_source_def Pt py_index_point cell_def)
qed

lemma apply_move_steps_sound:
  assumes "sound_move (current_player gs) gs src dst" "length (board gs) = 24"
  shows "apply_move_steps gs src dst =
           Inr (snd (make_move_base_logic gs (current_player gs) src dst))"
proof -
  from leave_source_sound [OF assms] obtain g1 where
    t: "take_from_source gs (current_player gs) src = Some g1" and
    s: "leave_source gs src = Inr g1" and p: "current_player g1 = current_player gs" and
    l: "length (board g1) = 24"
    by blast
  from take_from_source_sound [OF assms] t have
    e: "\<forall>e. 1 \<le> e \<and> e \<le> 24 \<and> (cell gs e * p_sign (current_player gs) \<ge> 0 \<or> \<bar>cell gs e\<bar> = 1) \<longrightarrow>
                (cell g1 e * p_sign (current_player gs) \<ge> 0 \<or> \<bar>cell g1 e\<bar> = 1)"
    by simp
  show ?thesis
  proof (cases dst)
    case Bar
    with assms show ?thesis by (simp add: sound_move_def)
  next
    case Off
    with t s p show ?thesis
      by (simp add: apply_move_steps_def make_move_base_logic_def enter_destination_def)
  next
    case (Pt d)
    with assms have d: "1 \<le> d" "d \<le> 24"
       "cell gs d * p_sign (current_player gs) \<ge> 0 \<or> \<bar>cell gs d\<bar> = 1"
      by (auto simp: sound_move_def)
    with e have d1: "cell g1 d * p_sign (current_player gs) \<ge> 0 \<or> \<bar>cell g1 d\<bar> = 1" by blast
    from d l have i: "py_index (board g1) (d - 1) = Some (nat (d - 1))"
      by (simp add: py_index_point)
    from d1 have nb: "\<not> (cell g1 d * p_sign (current_player gs) < 0 \<and> \<bar>cell g1 d\<bar> \<ge> 2)"
      by linarith
    from d1 have hb: "cell g1 d * p_sign (current_player gs) < 0 \<Longrightarrow> \<bar>cell g1 d\<bar> = 1"
      by linarith
    show ?thesis
      using t s p d i nb hb
      by (simp add: apply_move_steps_def make_move_base_logic_def enter_destination_def Pt Let_def
                    cell_def)
  qed
qed

lemma is_game_over_counts:
  "get_total_checker_count (snd (is_game_over gs)) = get_total_checker_count gs \<and>
   length (board (snd (is_game_over gs))) = length (board gs)"
  by (simp add: is_game_over_def get_total_checker_count_def)

lemma make_move_counts:
  assumes "(src, dst) \<in> set (get_legal_actions gs)" "length (board gs) = 24"
    "get_total_checker_count gs = (15, 15)"
  shows "length (board (snd (make_move gs src dst))) = 24 \<and>
         get_total_checker_count (snd (make_move gs src dst)) = (15, 15)"
proof (cases "die_to_remove gs src dst")
  case None
  with assms show ?thesis by (simp add: make_move_def)
next
  case (Some die)
  let ?g1 = "snd (make_move_base_logic gs (current_player gs) src dst)"
  from assms(1) have sm: "sound_move (current_player gs) gs src dst" by (rule legal_sound)
  from apply_move_steps_sound [OF sm assms(2)]
  have a: "apply_move_steps gs src dst = Inr ?g1" .
  from base_logic_counts [OF sm assms(2)] assms(3)
  have c: "length (board ?g1) = 24" "get_total_checker_count ?g1 = (15, 15)" by simp_all
  let ?g3 = "?g1\<lparr>dice := remove1 die (dice ?g1),
               available_moves := get_legal_actions (?g1\<lparr>dice := remove1 die (dice ?g1)\<rparr>)\<rparr>"
  have c3: "get_total_checker_count ?g3 = (15, 15)" "length (board ?g3) = 24"
    using c by (simp_all add: get_total_checker_count_def)
  have c4: "get_total_checker_count (snd (is_game_over ?g3)) = (15, 15)"
      "length (board (snd (is_game_over ?g3))) = 24"
    using c3 is_game_over_counts [of ?g3] by simp_all
  show ?thesis
    using Some a c4 by (simp add: make_move_def Let_def)
qed

text \<open>
  C7. In every state reachable from the starting position by \<open>make_move\<close> on a legal move,
  \<open>make_move_base_logic\<close> on a generated move, \<open>roll_dice\<close> and \<open>switch_player\<close>, each
  colour has fifteen checkers in all: on the board, on the bar and borne off.
\<close>

theorem checker_conservation:
  assumes "reachable gs"
  shows "get_total_checker_count gs = (15, 15)"
proof -
  from assms have "length (board gs) = 24 \<and> get_total_checker_count gs = (15, 15)"
  proof (induction rule: reachable.induct)
    case start
    show ?case
      by (simp add: initial_game_def get_total_checker_count_def w_board_def b_board_def)
  next
    case (moved gs src dst)
    then show ?case using make_move_counts by blast
  next
    case (simulated gs src dst player die)
    then show ?case using base_logic_counts generated_sound by metis
  next
    case (rolled gs d1 d2)
    then show ?case by (simp add: roll_dice_def Let_def get_total_checker_count_def)
  next
    case (switched gs)
    then show ?case by (simp add: switch_player_def get_total_checker_count_def)
  qed
  then show ?thesis by blast
qed

theorem checker_conservation_witness:
  "reachable (snd (make_move (roll_dice 3 1 initial_game) (Pt 17) (Pt 20))) \<and>
   get_total_checker_count (snd (make_move (roll_dice 3 1 initial_game) (Pt 17) (Pt 20))) = (15, 15)"
proof -
  have l: "(Pt 17, Pt 20) \<in> set (get_legal_actions (roll_dice 3 1 initial_game))"
    by code_simp
  have "reachable (roll_dice 3 1 initial_game)"
    by (rule reachable.rolled) (rule reachable.start)
  then have r: "reachable (snd (make_move (roll_dice 3 1 initial_game) (Pt 17) (Pt 20)))"
    using l by (rule reachable.moved)
  from r checker_conservation [OF r] show ?thesis by simp
qed

section \<open>Forced-die resolver\<close>

lemma unique_dice_pair:
  "a \<noteq> b \<Longrightarrow> rev (sort (remdups [a, b :: int])) = [max a b, min a b]"
  by (cases "a < b") (auto simp: max_def min_def)

lemma plays_then_alt:
  "plays_then gs player d1 d2 \<longleftrightarrow>
     (\<exists>mv \<in> set (get_single_moves_for_die player d1 gs).
        fst (make_move_base_logic gs player (fst mv) (snd mv)) \<and>
        get_single_moves_for_die player d2
          (snd (make_move_base_logic gs player (fst mv) (snd mv))) \<noteq> [])"
  by (simp add: plays_then_def list_ex_iff case_prod_beta)

lemma plays_then_iff:
  assumes "length (board gs) = 24"
  shows "plays_then gs player d1 d2 \<longleftrightarrow> two_moves gs player d1 d2"
proof
  assume "plays_then gs player d1 d2"
  then obtain mv where "mv \<in> set (get_single_moves_for_die player d1 gs)"
    "get_single_moves_for_die player d2
       (snd (make_move_base_logic gs player (fst mv) (snd mv))) \<noteq> []"
    unfolding plays_then_alt by blast
  then have "(fst mv, snd mv) \<in> set (get_single_moves_for_die player d1 gs) \<and>
    get_single_moves_for_die player d2
       (snd (make_move_base_logic gs player (fst mv) (snd mv))) \<noteq> []"
    by simp
  then show "two_moves gs player d1 d2"
    unfolding two_moves_def by blast
next
  assume "two_moves gs player d1 d2"
  then obtain src dst where m: "(src, dst) \<in> set (get_single_moves_for_die player d1 gs)"
    and n: "get_single_moves_for_die player d2 (snd (make_move_base_logic gs player src dst)) \<noteq> []"
    unfolding two_moves_def by blast
  from m have "sound_move player gs src dst" by (rule generated_sound)
  from base_logic_counts [OF this assms]
  have "fst (make_move_base_logic gs player src dst)" by simp
  with m n show "plays_then gs player d1 d2"
    unfolding plays_then_alt by (intro bexI [of _ "(src, dst)"]) simp_all
qed

text \<open>
  C2. On a board of 24 points, for a roll of two distinct dice the resolver returns the one
  die that has a single move when only one has; nothing when neither has; both dice (the
  larger first) when both have and, in one order or the other, a move of the first die
  leaves a move for the second; and the larger die alone when both have a move but neither
  order plays both.
\<close>

theorem forced_die_non_double:
  assumes "a \<noteq> b" and "length (board gs) = 24"
  shows "get_strictly_playable_dice gs [a, b] player =
           (if playable player gs (max a b) \<and> \<not> playable player gs (min a b) then [max a b]
            else if \<not> playable player gs (max a b) \<and> playable player gs (min a b) then [min a b]
            else if \<not> playable player gs (max a b) \<and> \<not> playable player gs (min a b) then []
            else if two_moves gs player (max a b) (min a b) \<or>
                    two_moves gs player (min a b) (max a b)
                 then [max a b, min a b]
                 else [max a b])"
proof -
  have ne: "max a b \<noteq> min a b" using assms by (auto simp: max_def min_def)
  have u: "rev (sort (remdups [a, b])) = [max a b, min a b]"
    using assms(1) by (rule unique_dice_pair)
  show ?thesis
    unfolding get_strictly_playable_dice_def u Let_def playable_def
      plays_then_iff [OF assms(2)]
    using assms ne by (simp del: remdups.simps sort_key_simps max_def min_def)
qed

theorem forced_die_non_double_witness:
  "(6::int) \<noteq> 5 \<and> length (board last_checker) = 24 \<and>
   playable W last_checker 6 \<and> playable W last_checker 5 \<and>
   get_strictly_playable_dice last_checker [6, 5] W = [6] \<and>
   get_strictly_playable_dice initial_game [6, 5] W = [6, 5] \<and>
   get_strictly_playable_dice white_on_bar [6, 5] W = [5]"
proof -
  have l: "length (board last_checker) = 24" "length (board initial_game) = 24"
    "length (board white_on_bar) = 24"
    by (simp_all add: last_checker_def initial_game_def white_on_bar_def)
  have p: "playable W initial_game 6" "playable W initial_game 5" "plays_then initial_game W 6 5"
    by code_simp+
  have q: "\<not> playable W white_on_bar 6" "playable W white_on_bar 5"
    by code_simp+
  have r: "playable W last_checker 6" "playable W last_checker 5"
    "\<not> plays_then last_checker W 6 5" "\<not> plays_then last_checker W 5 6"
    by code_simp+
  from p(3) have p3: "two_moves initial_game W 6 5" by (simp add: plays_then_iff l)
  from r(3,4) have r3: "\<not> two_moves last_checker W 6 5" "\<not> two_moves last_checker W 5 6"
    by (simp_all add: plays_then_iff l)
  show ?thesis
    using forced_die_non_double [of 6 5 initial_game W]
          forced_die_non_double [of 6 5 white_on_bar W]
          forced_die_non_double [of 6 5 last_checker W] l p(1,2) p3 q r(1,2) r3
    by simp
qed

section \<open>Failure paths of \<open>make_move\<close>\<close>

lemma make_move_exception_rolls_back:
  assumes "die_to_remove gs src dst = Some die" and "apply_move_steps gs src dst = Inl e"
  shows "make_move gs src dst =
           (False, gs\<lparr>available_moves := get_legal_actions gs, winner := Some ERROR\<rparr>)"
  using assms by (simp add: make_move_def)

text \<open>
  C3. After the roll 1 and 2 in the starting position, \<open>make_move(2, 3)\<close> takes a white
  checker from the empty point 2. The count check fails (sixteen checkers of each colour),
  \<open>make_move\<close> returns \<open>False\<close> and sets the winner to \<open>"ERROR"\<close>, and the board keeps the
  move and the dice have lost the die: nothing is set back to the values saved before.
\<close>

theorem make_move_count_failure_keeps_mutation:
  "fst (make_move (roll_dice 1 2 initial_game) (Pt 2) (Pt 3)) = False \<and>
   winner (snd (make_move (roll_dice 1 2 initial_game) (Pt 2) (Pt 3))) = Some ERROR \<and>
   get_total_checker_count (snd (make_move (roll_dice 1 2 initial_game) (Pt 2) (Pt 3))) = (16, 16) \<and>
   board (roll_dice 1 2 initial_game) =
     [2, 0, 0, 0, 0, - 5, 0, - 3, 0, 0, 0, 5, - 5, 0, 0, 0, 3, 0, 5, 0, 0, 0, 0, - 2] \<and>
   board (snd (make_move (roll_dice 1 2 initial_game) (Pt 2) (Pt 3))) =
     [2, - 1, 1, 0, 0, - 5, 0, - 3, 0, 0, 0, 5, - 5, 0, 0, 0, 3, 0, 5, 0, 0, 0, 0, - 2] \<and>
   dice (roll_dice 1 2 initial_game) = [1, 2] \<and>
   dice (snd (make_move (roll_dice 1 2 initial_game) (Pt 2) (Pt 3))) = [2]"
  by code_simp

theorem make_move_count_failure_keeps_mutation_witness:
  "winner (snd (make_move (roll_dice 1 2 initial_game) (Pt 2) (Pt 3))) = Some ERROR \<and>
   dice (snd (make_move (roll_dice 1 2 initial_game) (Pt 2) (Pt 3))) = [2] \<and>
   dice (roll_dice 1 2 initial_game) = [1, 2]"
  using make_move_count_failure_keeps_mutation by (intro conjI) (elim conjE, assumption)+

section \<open>Turn-sequence enumerator: the maximum-dice filter\<close>

lemma set_alist_update: "set (AList.update k v al) \<subseteq> insert (k, v) (set al)"
  by (induction al) auto

lemma record_outcome_entries:
  "set (record_outcome st sq outs) \<subseteq> insert (board_tuple st, (st, sq)) (set outs)"
  using set_alist_update [of "board_tuple st" "(st, sq)" outs]
  by (auto simp: record_outcome_def split: option.splits)

lemma record_outcome_nonempty: "record_outcome st sq outs \<noteq> []"
  by (cases outs) (auto simp: record_outcome_def split: option.splits)

lemma fold_invariant:
  assumes "P a" and "\<And>x b. x \<in> set xs \<Longrightarrow> P b \<Longrightarrow> P (f x b)"
  shows "P (fold f xs a)"
  using assms by (induction xs arbitrary: a) auto

lemma find_entries:
  "\<forall>e \<in> set (snd (find_sequences_recursive player st d sq mo)). entry_ok st sq (snd mo) e"
proof (induction player st d sq mo rule: find_sequences_recursive.induct)
  case (1 player state_now dice_rem sequence_so_far mo)
  let ?P = "\<lambda>acc :: (board_key \<times> int list) list \<times> (board_key \<times> outcome) list.
              \<forall>e \<in> set (snd acc). entry_ok state_now sequence_so_far (snd mo) e"
  have rec: "\<And>outs. (\<forall>e \<in> set outs. entry_ok state_now sequence_so_far (snd mo) e) \<Longrightarrow>
      (\<forall>e \<in> set (record_outcome state_now sequence_so_far outs).
          entry_ok state_now sequence_so_far (snd mo) e)"
    using record_outcome_entries [of state_now sequence_so_far]
    by (fastforce simp: entry_ok_def)
  have base: "\<forall>e \<in> set (snd mo). entry_ok state_now sequence_so_far (snd mo) e"
    by (simp add: entry_ok_def)
  show ?case
  proof (cases "(board_tuple state_now, dice_rem) \<in> set (fst mo)")
    case True
    then show ?thesis
      using base by (subst find_sequences_recursive.simps) simp
  next
    case nm: False
    show ?thesis
    proof (cases "dice_rem = [] \<or> get_strictly_playable_dice state_now dice_rem player = []")
      case True
      then show ?thesis
        using nm rec [OF base]
        by (subst find_sequences_recursive.simps) (auto simp: Let_def)
    next
      case False
      let ?inner = "\<lambda>die_val. (\<lambda>mv acc2.
                 case consumed_die player state_now dice_rem die_val mv of
                   None \<Rightarrow> acc2
                 | Some c \<Rightarrow>
                     (if fst (make_move_base_logic state_now player (fst mv) (snd mv))
                         \<and> c \<in> set dice_rem
                      then find_sequences_recursive player
                             (snd (make_move_base_logic state_now player (fst mv) (snd mv)))
                             (sort (remove1 c dice_rem))
                             (sequence_so_far @ [mv]) acc2
                      else acc2))"
      have step: "?P (?inner die_val mv acc2)"
        if dv: "die_val \<in> set (get_strictly_playable_dice state_now dice_rem player)"
          and p: "?P acc2" for die_val mv acc2
      proof (cases "consumed_die player state_now dice_rem die_val mv")
        case None
        with p show ?thesis by simp
      next
        case (Some c)
        show ?thesis
        proof (cases "fst (make_move_base_logic state_now player (fst mv) (snd mv)) \<and> c \<in> set dice_rem")
          case f: False
          with Some p show ?thesis by auto
        next
          case t: True
          from False have ne: "dice_rem \<noteq> []"
            "get_strictly_playable_dice state_now dice_rem player \<noteq> []" by auto
          have ih: "\<forall>e \<in> set (snd (find_sequences_recursive player
                             (snd (make_move_base_logic state_now player (fst mv) (snd mv)))
                             (sort (remove1 c dice_rem))
                             (sequence_so_far @ [mv]) acc2)).
                entry_ok (snd (make_move_base_logic state_now player (fst mv) (snd mv)))
                   (sequence_so_far @ [mv]) (snd acc2) e"
            using "1.IH" [OF nm refl ne(1) refl ne(2) dv Some t] .
          have "?P (find_sequences_recursive player
                             (snd (make_move_base_logic state_now player (fst mv) (snd mv)))
                             (sort (remove1 c dice_rem))
                             (sequence_so_far @ [mv]) acc2)"
            using ih p by (fastforce simp: entry_ok_def)
          with Some t show ?thesis by simp
        qed
      qed
      let ?mo2 = "fold (\<lambda>die_val acc. fold (?inner die_val)
                           (get_single_moves_for_die player die_val state_now) acc)
                    (get_strictly_playable_dice state_now dice_rem player)
                    ((board_tuple state_now, dice_rem) # fst mo, snd mo)"
      have m2: "?P ?mo2"
      proof (rule fold_invariant)
        show "?P ((board_tuple state_now, dice_rem) # fst mo, snd mo)" using base by simp
      next
        fix die_val acc
        assume dv: "die_val \<in> set (get_strictly_playable_dice state_now dice_rem player)"
          and p: "?P acc"
        show "?P (fold (?inner die_val) (get_single_moves_for_die player die_val state_now) acc)"
          by (rule fold_invariant [where P = ?P, OF p]) (rule step [OF dv])
      qed
      from False nm m2 rec [OF m2] show ?thesis
        by (subst find_sequences_recursive.simps) (simp add: Let_def)
    qed
  qed
qed

lemma find_memo_grows:
  "set (fst mo) \<subseteq> set (fst (find_sequences_recursive player st d sq mo))"
proof (induction player st d sq mo rule: find_sequences_recursive.induct)
  case (1 player state_now dice_rem sequence_so_far mo)
  let ?P = "\<lambda>acc :: (board_key \<times> int list) list \<times> (board_key \<times> outcome) list.
              insert (board_tuple state_now, dice_rem) (set (fst mo)) \<subseteq> set (fst acc)"
  show ?case
  proof (cases "(board_tuple state_now, dice_rem) \<in> set (fst mo)")
    case True
    then show ?thesis
      by (subst find_sequences_recursive.simps) simp
  next
    case nm: False
    show ?thesis
    proof (cases "dice_rem = [] \<or> get_strictly_playable_dice state_now dice_rem player = []")
      case True
      then show ?thesis
        using nm by (subst find_sequences_recursive.simps) (auto simp: Let_def)
    next
      case False
      let ?inner = "\<lambda>die_val. (\<lambda>mv acc2.
                 case consumed_die player state_now dice_rem die_val mv of
                   None \<Rightarrow> acc2
                 | Some c \<Rightarrow>
                     (if fst (make_move_base_logic state_now player (fst mv) (snd mv))
                         \<and> c \<in> set dice_rem
                      then find_sequences_recursive player
                             (snd (make_move_base_logic state_now player (fst mv) (snd mv)))
                             (sort (remove1 c dice_rem))
                             (sequence_so_far @ [mv]) acc2
                      else acc2))"
      have step: "?P (?inner die_val mv acc2)"
        if dv: "die_val \<in> set (get_strictly_playable_dice state_now dice_rem player)"
          and p: "?P acc2" for die_val mv acc2
      proof (cases "consumed_die player state_now dice_rem die_val mv")
        case None
        with p show ?thesis by simp
      next
        case (Some c)
        show ?thesis
        proof (cases "fst (make_move_base_logic state_now player (fst mv) (snd mv)) \<and> c \<in> set dice_rem")
          case f: False
          with Some p show ?thesis by auto
        next
          case t: True
          from False have ne: "dice_rem \<noteq> []"
            "get_strictly_playable_dice state_now dice_rem player \<noteq> []" by auto
          have ih: "set (fst acc2) \<subseteq> set (fst (find_sequences_recursive player
                             (snd (make_move_base_logic state_now player (fst mv) (snd mv)))
                             (sort (remove1 c dice_rem))
                             (sequence_so_far @ [mv]) acc2))"
            using "1.IH" [OF nm refl ne(1) refl ne(2) dv Some t] .
          have "?P (find_sequences_recursive player
                             (snd (make_move_base_logic state_now player (fst mv) (snd mv)))
                             (sort (remove1 c dice_rem))
                             (sequence_so_far @ [mv]) acc2)"
            using ih p by blast
          with Some t show ?thesis by simp
        qed
      qed
      let ?mo2 = "fold (\<lambda>die_val acc. fold (?inner die_val)
                           (get_single_moves_for_die player die_val state_now) acc)
                    (get_strictly_playable_dice state_now dice_rem player)
                    ((board_tuple state_now, dice_rem) # fst mo, snd mo)"
      have m2: "?P ?mo2"
      proof (rule fold_invariant)
        show "?P ((board_tuple state_now, dice_rem) # fst mo, snd mo)" by auto
      next
        fix die_val acc
        assume dv: "die_val \<in> set (get_strictly_playable_dice state_now dice_rem player)"
          and p: "?P acc"
        show "?P (fold (?inner die_val) (get_single_moves_for_die player die_val state_now) acc)"
          by (rule fold_invariant [where P = ?P, OF p]) (rule step [OF dv])
      qed
      from False nm m2 show ?thesis
        by (subst find_sequences_recursive.simps) (auto simp: Let_def)
    qed
  qed
qed

lemma find_memo_key:
  "(board_tuple st, d) \<in> set (fst (find_sequences_recursive player st d sq mo))"
proof (cases "(board_tuple st, d) \<in> set (fst mo)")
  case True
  then show ?thesis by (subst find_sequences_recursive.simps) simp
next
  case nm: False
  show ?thesis
  proof (cases "d = [] \<or> get_strictly_playable_dice st d player = []")
    case True
    then show ?thesis
      using nm by (subst find_sequences_recursive.simps) (auto simp: Let_def)
  next
    case False
    let ?inner = "\<lambda>die_val. (\<lambda>mv acc2.
                 case consumed_die player st d die_val mv of
                   None \<Rightarrow> acc2
                 | Some c \<Rightarrow>
                     (if fst (make_move_base_logic st player (fst mv) (snd mv))
                         \<and> c \<in> set d
                      then find_sequences_recursive player
                             (snd (make_move_base_logic st player (fst mv) (snd mv)))
                             (sort (remove1 c d))
                             (sq @ [mv]) acc2
                      else acc2))"
    let ?P = "\<lambda>acc :: (board_key \<times> int list) list \<times> (board_key \<times> outcome) list.
              (board_tuple st, d) \<in> set (fst acc)"
    have step: "?P (?inner die_val mv acc2)" if p: "?P acc2" for die_val mv acc2
      using p find_memo_grows [of acc2 player
          "snd (make_move_base_logic st player (fst mv) (snd mv))" _ "sq @ [mv]"]
      by (auto split: option.splits)
    let ?mo2 = "fold (\<lambda>die_val acc. fold (?inner die_val)
                           (get_single_moves_for_die player die_val st) acc)
                    (get_strictly_playable_dice st d player)
                    ((board_tuple st, d) # fst mo, snd mo)"
    have m2: "?P ?mo2"
    proof (rule fold_invariant)
      show "?P ((board_tuple st, d) # fst mo, snd mo)" by simp
    next
      fix die_val acc
      assume p: "?P acc"
      show "?P (fold (?inner die_val) (get_single_moves_for_die player die_val st) acc)"
        by (rule fold_invariant [where P = ?P, OF p]) (rule step)
    qed
    from False nm m2 show ?thesis
      by (subst find_sequences_recursive.simps) (auto simp: Let_def)
  qed
qed

lemma find_again:
  "(board_tuple st, d) \<in> set (fst mo) \<Longrightarrow> find_sequences_recursive player st d sq mo = mo"
  by (subst find_sequences_recursive.simps) simp

lemma possible_final_outcomes_one_search:
  "possible_final_outcomes gs dice_tuple player =
     map snd (snd (find_sequences_recursive player (gs\<lparr>dice := dice_tuple\<rparr>)
                     (sort dice_tuple) [] ([], [])))"
proof (cases "length dice_tuple = 2 \<and> dice_tuple ! 0 \<noteq> dice_tuple ! 1")
  case True
  then obtain d1 d2 where d: "dice_tuple = [d1, d2]" "d1 \<noteq> d2"
    by (cases dice_tuple; cases "tl dice_tuple") auto
  let ?r = "find_sequences_recursive player (gs\<lparr>dice := [d1, d2]\<rparr>) (sort [d1, d2]) [] ([], [])"
  have k: "(board_tuple (gs\<lparr>dice := [d2, d1]\<rparr>), sort [d2, d1]) \<in> set (fst ?r)"
  proof -
    have "(board_tuple (gs\<lparr>dice := [d1, d2]\<rparr>), sort [d1, d2]) \<in> set (fst ?r)"
      by (rule find_memo_key)
    moreover have "board_tuple (gs\<lparr>dice := [d2, d1]\<rparr>) = board_tuple (gs\<lparr>dice := [d1, d2]\<rparr>)"
      by (simp add: board_tuple_def)
    moreover have "sort [d2, d1] = sort [d1, d2]" by auto
    ultimately show ?thesis by simp
  qed
  have "find_sequences_recursive player (gs\<lparr>dice := [d2, d1]\<rparr>) (sort [d2, d1]) [] ?r = ?r"
    using k by (rule find_again)
  then show ?thesis
    using d by (simp add: possible_final_outcomes_def initial_dice_perms_def)
next
  case False
  then have "initial_dice_perms dice_tuple = [dice_tuple]"
    by (cases dice_tuple; cases "tl dice_tuple")
       (auto simp: initial_dice_perms_def Let_def)
  then show ?thesis by (simp add: possible_final_outcomes_def)
qed

lemma empty_sequences_at_root:
  assumes "(st, []) \<in> set (possible_final_outcomes gs dice_tuple player)"
  shows "st = gs\<lparr>dice := dice_tuple\<rparr>"
proof -
  from assms obtain k where
    "(k, (st, [])) \<in> set (snd (find_sequences_recursive player (gs\<lparr>dice := dice_tuple\<rparr>)
                     (sort dice_tuple) [] ([], [])))"
    unfolding possible_final_outcomes_one_search by auto
  with find_entries [of player "gs\<lparr>dice := dice_tuple\<rparr>" "sort dice_tuple" "[]" "([], [])"]
  show ?thesis by (fastforce simp: entry_ok_def)
qed

lemma seq_lengths_image: "seq_lengths outs = (\<lambda>e. length (snd e)) ` set outs"
  by (auto simp: seq_lengths_def split: prod.splits intro!: image_eqI)

lemma max_len_bounds:
  assumes "outs \<noteq> []"
  shows "\<exists>e \<in> set outs. length (snd e) = Max (seq_lengths outs)"
    and "\<forall>e \<in> set outs. length (snd e) \<le> Max (seq_lengths outs)"
proof -
  have f: "finite (seq_lengths outs)" by (simp add: seq_lengths_def)
  have n: "seq_lengths outs \<noteq> {}" using assms by (simp add: seq_lengths_def)
  from Max_in [OF f n] have "Max (seq_lengths outs) \<in> (\<lambda>e. length (snd e)) ` set outs"
    by (simp add: seq_lengths_image)
  then obtain e where "e \<in> set outs" "Max (seq_lengths outs) = length (snd e)"
    by (rule imageE)
  then show "\<exists>e \<in> set outs. length (snd e) = Max (seq_lengths outs)"
    by (intro bexI [of _ e]) simp_all
  show "\<forall>e \<in> set outs. length (snd e) \<le> Max (seq_lengths outs)"
  proof
    fix e assume "e \<in> set outs"
    then have "length (snd e) \<in> seq_lengths outs"
      by (simp add: seq_lengths_image)
    then show "length (snd e) \<le> Max (seq_lengths outs)" using f by simp
  qed
qed

lemma generate_nonempty_roll:
  assumes "dice_tuple \<noteq> []" and "possible_final_outcomes gs dice_tuple player = outs"
    and "outs \<noteq> []"
  shows "generate_possible_next_states_with_sequences gs dice_tuple player =
           (if Max (seq_lengths outs) = 0 then [outs ! 0]
            else filter (\<lambda>(st, sq). length sq = Max (seq_lengths outs)) outs)"
proof -
  have l: "length outs \<ge> 1" using assms(3) by (cases outs) auto
  from max_len_bounds(1) [OF assms(3)] obtain e where
    "e \<in> set outs" "length (snd e) = Max (seq_lengths outs)" by blast
  then have "e \<in> set (filter (\<lambda>(st, sq). length sq = Max (seq_lengths outs)) outs)"
    by (simp add: case_prod_beta)
  then have "filter (\<lambda>(st, sq). length sq = Max (seq_lengths outs)) outs \<noteq> []"
    by (metis empty_iff empty_set)
  then show ?thesis
    using assms l
    by (simp add: generate_possible_next_states_with_sequences_def Let_def seq_lengths_def)
qed

lemma cell_ignores_dice: "cell (gs\<lparr>dice := ds\<rparr>) pos = cell gs pos"
  by (simp add: cell_def)

lemma can_bear_off_ignores_dice:
  "can_bear_off player pos d (gs\<lparr>dice := ds\<rparr>) = can_bear_off player pos d gs"
  by (simp add: can_bear_off_def cell_ignores_dice Let_def del: upto_rec_numeral)

lemma moves_from_point_ignores_dice:
  "moves_from_point player d (gs\<lparr>dice := ds\<rparr>) ah = moves_from_point player d gs ah"
  by (rule ext) (simp add: moves_from_point_def cell_ignores_dice can_bear_off_ignores_dice Let_def)

lemma all_home_ignores_dice:
  "check_all_pieces_home player (gs\<lparr>dice := ds\<rparr>) = check_all_pieces_home player gs"
  by (simp add: check_all_pieces_home_def cell_ignores_dice bar_of_def del: upto_rec_numeral)

lemma moves_ignore_dice:
  "get_single_moves_for_die player d (gs\<lparr>dice := ds\<rparr>) = get_single_moves_for_die player d gs"
  by (simp add: get_single_moves_for_die_def moves_from_point_ignores_dice all_home_ignores_dice
        cell_ignores_dice bar_of_def Let_def del: upto_rec_numeral)

lemma resolver_none:
  assumes "\<forall>d \<in> set ds. \<not> playable player gs d"
  shows "get_strictly_playable_dice gs ds player = []"
proof -
  have "filter (\<lambda>die. get_single_moves_for_die player die gs \<noteq> []) (rev (sort (remdups ds))) = []"
    using assms by (auto simp: filter_empty_conv playable_def)
  then show ?thesis by (simp add: get_strictly_playable_dice_def Let_def)
qed

lemma no_die_playable_outcomes:
  assumes "dice_tuple \<noteq> []" and "\<forall>d \<in> set dice_tuple. \<not> playable player gs d"
  shows "possible_final_outcomes gs dice_tuple player = [(gs\<lparr>dice := dice_tuple\<rparr>, [])]"
proof -
  have "\<forall>d \<in> set (sort dice_tuple). \<not> playable player (gs\<lparr>dice := dice_tuple\<rparr>) d"
    using assms(2) by (simp add: playable_def moves_ignore_dice)
  then have r: "get_strictly_playable_dice (gs\<lparr>dice := dice_tuple\<rparr>) (sort dice_tuple) player = []"
    by (rule resolver_none)
  have s: "sort dice_tuple \<noteq> []" using assms(1) by (cases dice_tuple) auto
  have "find_sequences_recursive player (gs\<lparr>dice := dice_tuple\<rparr>) (sort dice_tuple) [] ([], []) =
          ([(board_tuple (gs\<lparr>dice := dice_tuple\<rparr>), sort dice_tuple)],
           [(board_tuple (gs\<lparr>dice := dice_tuple\<rparr>), (gs\<lparr>dice := dice_tuple\<rparr>, []))])"
    using r s by (subst find_sequences_recursive.simps) (simp add: Let_def record_outcome_def)
  then show ?thesis by (simp add: possible_final_outcomes_one_search)
qed

text \<open>
  C1 (as amended). Every pair the enumerator returns for a roll from which its search has
  collected terminal outcomes is one of them, and its sequence has the greatest length among
  the collected sequences; there is at least one such pair. If no die of the roll has a
  single move, and also if no collected sequence plays a die, the single pair returned is the
  empty sequence with the input state whose dice are set to the roll; for an empty roll it
  is the empty sequence with the input state as it is. Nothing is said of a roll with a
  playable die from which the search collects no outcome.
\<close>

theorem enumerator_max_length:
  "(dice_tuple = [] \<longrightarrow>
      generate_possible_next_states_with_sequences gs dice_tuple player = [(gs, [])]) \<and>
   (dice_tuple \<noteq> [] \<and> (\<forall>d \<in> set dice_tuple. \<not> playable player gs d) \<longrightarrow>
      generate_possible_next_states_with_sequences gs dice_tuple player =
        [(gs\<lparr>dice := dice_tuple\<rparr>, [])]) \<and>
   (dice_tuple \<noteq> [] \<and> possible_final_outcomes gs dice_tuple player \<noteq> [] \<longrightarrow>
      generate_possible_next_states_with_sequences gs dice_tuple player \<noteq> [] \<and>
      set (generate_possible_next_states_with_sequences gs dice_tuple player)
        \<subseteq> set (possible_final_outcomes gs dice_tuple player) \<and>
      (\<forall>(st, sq) \<in> set (generate_possible_next_states_with_sequences gs dice_tuple player).
          length sq = Max (seq_lengths (possible_final_outcomes gs dice_tuple player))) \<and>
      (Max (seq_lengths (possible_final_outcomes gs dice_tuple player)) = 0 \<longrightarrow>
         generate_possible_next_states_with_sequences gs dice_tuple player =
           [(gs\<lparr>dice := dice_tuple\<rparr>, [])]))"
proof (intro conjI impI)
  assume "dice_tuple = []"
  then show "generate_possible_next_states_with_sequences gs dice_tuple player = [(gs, [])]"
    by (simp add: generate_possible_next_states_with_sequences_def)
next
  assume a: "dice_tuple \<noteq> [] \<and> (\<forall>d \<in> set dice_tuple. \<not> playable player gs d)"
  then have o: "possible_final_outcomes gs dice_tuple player = [(gs\<lparr>dice := dice_tuple\<rparr>, [])]"
    by (simp add: no_die_playable_outcomes)
  have "Max (seq_lengths [(gs\<lparr>dice := dice_tuple\<rparr>, [])]) = 0" by (simp add: seq_lengths_def)
  with a o generate_nonempty_roll [of dice_tuple gs player "[(gs\<lparr>dice := dice_tuple\<rparr>, [])]"]
  show "generate_possible_next_states_with_sequences gs dice_tuple player =
        [(gs\<lparr>dice := dice_tuple\<rparr>, [])]" by simp
next
  let ?outs = "possible_final_outcomes gs dice_tuple player"
  let ?res = "generate_possible_next_states_with_sequences gs dice_tuple player"
  assume a: "dice_tuple \<noteq> [] \<and> ?outs \<noteq> []"
  then have ne: "?outs \<noteq> []" and d: "dice_tuple \<noteq> []" by simp_all
  note g = generate_nonempty_roll [OF d refl ne]
  note mx = max_len_bounds [OF ne]
  have h: "?outs ! 0 \<in> set ?outs" using ne by (cases ?outs) auto
  show "?res \<noteq> []"
  proof -
    from mx(1) obtain e where
      "e \<in> set ?outs" "length (snd e) = Max (seq_lengths ?outs)" by blast
    then have "e \<in> set (filter (\<lambda>(st, sq). length sq = Max (seq_lengths ?outs)) ?outs)"
      by (simp add: case_prod_beta)
    then have "filter (\<lambda>(st, sq). length sq = Max (seq_lengths ?outs)) ?outs \<noteq> []"
      by (metis empty_iff empty_set)
    with g show ?thesis by simp
  qed
  show "set ?res \<subseteq> set ?outs"
    using g h by auto
  show "\<forall>(st, sq) \<in> set ?res. length sq = Max (seq_lengths ?outs)"
  proof (cases "Max (seq_lengths ?outs) = 0")
    case True
    with mx(2) h have "length (snd (?outs ! 0)) = 0" by fastforce
    with True g show ?thesis by (auto split: prod.splits)
  next
    case False
    with g show ?thesis by auto
  qed
  show "?res = [(gs\<lparr>dice := dice_tuple\<rparr>, [])]" if z: "Max (seq_lengths ?outs) = 0"
  proof -
    from mx(2) h z have e: "snd (?outs ! 0) = []" by fastforce
    then have "(fst (?outs ! 0), []) \<in> set ?outs" using h by (metis prod.collapse)
    then have "fst (?outs ! 0) = gs\<lparr>dice := dice_tuple\<rparr>" by (rule empty_sequences_at_root)
    with e have "?outs ! 0 = (gs\<lparr>dice := dice_tuple\<rparr>, [])" by (metis prod.collapse)
    with g z show ?thesis by simp
  qed
qed

text \<open>
  C1 as stated fails: with a white checker on the bar and the roll of two sixes (point 6 is
  held by black) no die can be played, and the state returned with the empty sequence has
  the dice \<open>[6, 6]\<close>, where the input state has none: it is not a copy of the input state.
\<close>

theorem no_move_outcome_not_input_copy:
  "dice white_on_bar = [] \<and>
   possible_final_outcomes white_on_bar [6, 6] W = [(white_on_bar\<lparr>dice := [6, 6]\<rparr>, [])] \<and>
   generate_possible_next_states_with_sequences white_on_bar [6, 6] W =
     [(white_on_bar\<lparr>dice := [6, 6]\<rparr>, [])] \<and>
   generate_possible_next_states_with_sequences white_on_bar [6, 6] W \<noteq> [(white_on_bar, [])]"
  by code_simp

theorem enumerator_max_length_witness:
  "possible_final_outcomes initial_game [6, 5] W \<noteq> [] \<and>
   generate_possible_next_states_with_sequences initial_game [6, 5] W \<noteq> [] \<and>
   Max (seq_lengths (possible_final_outcomes initial_game [6, 5] W)) = 2 \<and>
   \<not> playable W white_on_bar 6 \<and>
   generate_possible_next_states_with_sequences white_on_bar [6, 6] W =
     [(white_on_bar\<lparr>dice := [6, 6]\<rparr>, [])]"
proof -
  have a: "possible_final_outcomes initial_game [6, 5] W \<noteq> []" by code_simp
  have b: "Max (seq_lengths (possible_final_outcomes initial_game [6, 5] W)) = 2" by code_simp
  have c: "\<not> playable W white_on_bar 6" by code_simp
  show ?thesis
    using enumerator_max_length [of "[6, 5]" initial_game W]
          enumerator_max_length [of "[6, 6]" white_on_bar W] a b c
    by simp
qed

section \<open>Sampled minimax: the bounds at a chance node\<close>

lemma gt_score_trans: "gt_score a b \<Longrightarrow> gt_score b c \<Longrightarrow> gt_score a c"
  by (cases a; cases b; cases c) auto

lemma gt_score_irrefl: "\<not> gt_score a a"
  by (cases a) auto

lemma gt_score_asym: "gt_score a b \<Longrightarrow> \<not> gt_score b a"
  by (cases a; cases b) auto

lemma py_max_tightens: "py_max a b = a \<or> gt_score (py_max a b) a"
  by (simp add: py_max_def)

lemma py_min_tightens: "py_min a b = a \<or> gt_score a (py_min a b)"
  by (simp add: py_min_def)

lemma tighter_up_trans:
  "x = a \<or> gt_score x a \<Longrightarrow> a = b \<or> gt_score a b \<Longrightarrow> x = b \<or> gt_score x b"
  using gt_score_trans by blast

lemma tighter_down_trans:
  "x = a \<or> gt_score a x \<Longrightarrow> a = b \<or> gt_score b a \<Longrightarrow> x = b \<or> gt_score b x"
  using gt_score_trans by blast

lemma max_branches_stop:
  assumes "ev (fst out) alpha beta r = (evaluation, r1)"
    and "le_score beta (py_max alpha (py_max best evaluation))"
  shows "max_branches ev (out # rest) best alpha beta r =
           (py_max best evaluation, py_max alpha (py_max best evaluation), r1)"
  using assms by (simp add: Let_def)

lemma max_branches_go:
  assumes "ev (fst out) alpha beta r = (evaluation, r1)"
    and "\<not> le_score beta (py_max alpha (py_max best evaluation))"
  shows "max_branches ev (out # rest) best alpha beta r =
           max_branches ev rest (py_max best evaluation)
             (py_max alpha (py_max best evaluation)) beta r1"
  using assms by (simp add: Let_def)

lemma min_branches_stop:
  assumes "ev (fst out) alpha beta r = (evaluation, r1)"
    and "le_score (py_min beta (py_min worst evaluation)) alpha"
  shows "min_branches ev (out # rest) worst alpha beta r =
           (py_min worst evaluation, py_min beta (py_min worst evaluation), r1)"
  using assms by (simp add: Let_def)

lemma min_branches_go:
  assumes "ev (fst out) alpha beta r = (evaluation, r1)"
    and "\<not> le_score (py_min beta (py_min worst evaluation)) alpha"
  shows "min_branches ev (out # rest) worst alpha beta r =
           min_branches ev rest (py_min worst evaluation) alpha
             (py_min beta (py_min worst evaluation)) r1"
  using assms by (simp add: Let_def)

lemma max_branches_alpha:
  "fst (snd (max_branches ev outs best alpha beta r)) = alpha \<or>
   gt_score (fst (snd (max_branches ev outs best alpha beta r))) alpha"
proof (induction outs arbitrary: best alpha r)
  case Nil
  show ?case by simp
next
  case (Cons out rest)
  obtain evaluation r1 where e: "ev (fst out) alpha beta r = (evaluation, r1)"
    by (cases "ev (fst out) alpha beta r")
  let ?b = "py_max best evaluation"
  let ?a = "py_max alpha ?b"
  note t = py_max_tightens [of alpha ?b]
  show ?case
  proof (cases "le_score beta ?a")
    case True
    have "max_branches ev (out # rest) best alpha beta r = (?b, ?a, r1)"
      using e True by (rule max_branches_stop)
    then have "fst (snd (max_branches ev (out # rest) best alpha beta r)) = ?a"
      by (simp only: fst_conv snd_conv)
    with t show ?thesis by (simp only:)
  next
    case False
    have m: "max_branches ev (out # rest) best alpha beta r = max_branches ev rest ?b ?a beta r1"
      using e False by (rule max_branches_go)
    from Cons.IH [of ?b ?a r1] t
    have "fst (snd (max_branches ev rest ?b ?a beta r1)) = alpha \<or>
          gt_score (fst (snd (max_branches ev rest ?b ?a beta r1))) alpha"
      by (rule tighter_up_trans)
    then show ?thesis by (simp only: m)
  qed
qed

lemma min_branches_beta:
  "fst (snd (min_branches ev outs worst alpha beta r)) = beta \<or>
   gt_score beta (fst (snd (min_branches ev outs worst alpha beta r)))"
proof (induction outs arbitrary: worst beta r)
  case Nil
  show ?case by simp
next
  case (Cons out rest)
  obtain evaluation r1 where e: "ev (fst out) alpha beta r = (evaluation, r1)"
    by (cases "ev (fst out) alpha beta r")
  let ?w = "py_min worst evaluation"
  let ?b = "py_min beta ?w"
  note t = py_min_tightens [of beta ?w]
  show ?case
  proof (cases "le_score ?b alpha")
    case True
    have "min_branches ev (out # rest) worst alpha beta r = (?w, ?b, r1)"
      using e True by (rule min_branches_stop)
    then have "fst (snd (min_branches ev (out # rest) worst alpha beta r)) = ?b"
      by (simp only: fst_conv snd_conv)
    with t show ?thesis by (simp only:)
  next
    case False
    have m: "min_branches ev (out # rest) worst alpha beta r = min_branches ev rest ?w alpha ?b r1"
      using e False by (rule min_branches_go)
    from Cons.IH [of ?w ?b r1] t
    have "fst (snd (min_branches ev rest ?w alpha ?b r1)) = beta \<or>
          gt_score beta (fst (snd (min_branches ev rest ?w alpha ?b r1)))"
      by (rule tighter_down_trans)
    then show ?thesis by (simp only: m)
  qed
qed

lemma roll_search_max_alpha:
  "fst (snd (roll_search_max ev gs ctp sample alpha beta r)) = alpha \<or>
   gt_score (fst (snd (roll_search_max ev gs ctp sample alpha beta r))) alpha"
  using max_branches_alpha [of ev _ NegInf alpha beta r]
  by (auto simp: roll_search_max_def Let_def split: prod.splits)

lemma roll_search_min_beta:
  "fst (snd (roll_search_min ev gs ctp sample alpha beta r)) = beta \<or>
   gt_score beta (fst (snd (roll_search_min ev gs ctp sample alpha beta r)))"
  using min_branches_beta [of ev _ PosInf alpha beta r]
  by (auto simp: roll_search_min_def Let_def split: prod.splits)

lemma max_samples_trace:
  "\<exists>tr'. bounds_of (max_samples ev gs ctp samples alpha beta acc n r tr) = tr @ tr' \<and>
         length tr' = length samples \<and> chained (alpha, beta) tr' \<and>
         list_all (alpha_carried beta) tr'"
proof (induction samples arbitrary: alpha acc n r tr)
  case Nil
  show ?case by (simp add: bounds_of_def)
next
  case (Cons sample rest)
  obtain best alpha1 r1 where s: "roll_search_max ev gs ctp sample alpha beta r = (best, alpha1, r1)"
    by (cases "roll_search_max ev gs ctp sample alpha beta r") auto
  from roll_search_max_alpha [of ev gs ctp sample alpha beta r] s
  have t: "alpha1 = alpha \<or> gt_score alpha1 alpha" by simp
  from Cons.IH [of alpha1 "add_score acc best" "n + 1" r1 "tr @ [((alpha, beta), (alpha1, beta))]"]
  obtain tr' where
    "bounds_of (max_samples ev gs ctp rest alpha1 beta (add_score acc best) (n + 1) r1
                  (tr @ [((alpha, beta), (alpha1, beta))])) =
       (tr @ [((alpha, beta), (alpha1, beta))]) @ tr'"
    "length tr' = length rest" "chained (alpha1, beta) tr'" "list_all (alpha_carried beta) tr'"
    by blast
  moreover from t have "alpha_carried beta ((alpha, beta), (alpha1, beta))"
    by (simp add: alpha_carried_def)
  ultimately show ?case
    using s by (intro exI [of _ "((alpha, beta), (alpha1, beta)) # tr'"]) simp
qed

lemma min_samples_trace:
  "\<exists>tr'. bounds_of (min_samples ev gs ctp samples alpha beta acc n r tr) = tr @ tr' \<and>
         length tr' = length samples \<and> chained (alpha, beta) tr' \<and>
         list_all (beta_carried alpha) tr'"
proof (induction samples arbitrary: beta acc n r tr)
  case Nil
  show ?case by (simp add: bounds_of_def)
next
  case (Cons sample rest)
  obtain worst beta1 r1 where s: "roll_search_min ev gs ctp sample alpha beta r = (worst, beta1, r1)"
    by (cases "roll_search_min ev gs ctp sample alpha beta r") auto
  from roll_search_min_beta [of ev gs ctp sample alpha beta r] s
  have t: "beta1 = beta \<or> gt_score beta beta1" by simp
  from Cons.IH [of beta1 "add_score acc worst" "n + 1" r1 "tr @ [((alpha, beta), (alpha, beta1))]"]
  obtain tr' where
    "bounds_of (min_samples ev gs ctp rest alpha beta1 (add_score acc worst) (n + 1) r1
                  (tr @ [((alpha, beta), (alpha, beta1))])) =
       (tr @ [((alpha, beta), (alpha, beta1))]) @ tr'"
    "length tr' = length rest" "chained (alpha, beta1) tr'" "list_all (beta_carried alpha) tr'"
    by blast
  moreover from t have "beta_carried alpha ((alpha, beta), (alpha, beta1))"
    by (simp add: beta_carried_def)
  ultimately show ?case
    using s by (intro exI [of _ "((alpha, beta), (alpha, beta1)) # tr'"]) simp
qed

text \<open>
  C4 (as amended). At a chance node the first sampled roll is searched from the bounds the
  function was called with, and every later roll from the bounds the roll before it ended
  with. At a maximizing node beta is the called one throughout and alpha is carried from
  roll to roll, equal to or strictly greater than before; at a minimizing node alpha is the
  called one throughout and beta is carried, equal to or strictly smaller than before.
\<close>

theorem bounds_carried_across_samples:
  "length (bounds_of (chance_node ev gs ctp mp samples alpha beta r)) = length samples \<and>
   chained (alpha, beta) (bounds_of (chance_node ev gs ctp mp samples alpha beta r)) \<and>
   (ctp = mp \<longrightarrow>
      list_all (alpha_carried beta) (bounds_of (chance_node ev gs ctp mp samples alpha beta r))) \<and>
   (ctp \<noteq> mp \<longrightarrow>
      list_all (beta_carried alpha) (bounds_of (chance_node ev gs ctp mp samples alpha beta r)))"
proof (cases "ctp = mp")
  case True
  with max_samples_trace [of ev gs ctp samples alpha beta "Fin 0" 0 r "[]"]
  show ?thesis by (auto simp: chance_node_def)
next
  case False
  with min_samples_trace [of ev gs ctp samples alpha beta "Fin 0" 0 r "[]"]
  show ?thesis by (auto simp: chance_node_def)
qed

text \<open>
  C4 as stated fails. White, maximizing and to move at depth 1, has its last checker on point
  24, and every sampled roll is a double 1. The search is called with alpha \<open>-inf\<close> and beta
  \<open>+inf\<close>; the first roll's only branch wins, which sets alpha to \<open>+inf\<close>, and the second
  roll's branches are searched from alpha \<open>+inf\<close>, not from the alpha of the call. Every
  branch ends in a final state, so the evaluator is never called.
\<close>

theorem alpha_carried_to_next_sample:
  "\<not> fst (is_game_over last_checker) \<and>
   length (bounds_of (chance_node_of flat_evaluator ones last_checker W 0 W NegInf PosInf 0)) = 14 \<and>
   fst (bounds_of (chance_node_of flat_evaluator ones last_checker W 0 W NegInf PosInf 0) ! 0)
     = (NegInf, PosInf) \<and>
   snd (bounds_of (chance_node_of flat_evaluator ones last_checker W 0 W NegInf PosInf 0) ! 0)
     = (PosInf, PosInf) \<and>
   fst (bounds_of (chance_node_of flat_evaluator ones last_checker W 0 W NegInf PosInf 0) ! 1)
     = (PosInf, PosInf) \<and>
   fst (bounds_of (chance_node_of flat_evaluator ones last_checker W 0 W NegInf PosInf 0) ! 1)
     \<noteq> (NegInf, PosInf)"
proof -
  have a: "\<not> fst (is_game_over last_checker)"
    by code_simp
  have b: "length (bounds_of (chance_node_of flat_evaluator ones last_checker W 0 W NegInf PosInf 0)) = 14"
    by code_simp
  have c: "bounds_of (chance_node_of flat_evaluator ones last_checker W 0 W NegInf PosInf 0) ! 0
             = ((NegInf, PosInf), (PosInf, PosInf))"
    by code_simp
  have d: "fst (bounds_of (chance_node_of flat_evaluator ones last_checker W 0 W NegInf PosInf 0) ! 1)
             = (PosInf, PosInf)"
    by code_simp
  from a b c d show ?thesis by simp
qed

theorem bounds_carried_across_samples_witness:
  "chained (NegInf, PosInf)
     (bounds_of (chance_node_of flat_evaluator ones last_checker W 0 W NegInf PosInf 0)) \<and>
   list_all (alpha_carried PosInf)
     (bounds_of (chance_node_of flat_evaluator ones last_checker W 0 W NegInf PosInf 0)) \<and>
   length (bounds_of (chance_node_of flat_evaluator ones last_checker W 0 W NegInf PosInf 0)) = 14"
proof -
  have n: "length (fst (get_random_dice_sample ones 0)) = 14"
    by (simp add: get_random_dice_sample_def NUM_DICE_SAMPLES_def)
  have th: "length (bounds_of (chance_node_of flat_evaluator ones last_checker W 0 W NegInf PosInf 0))
              = length (fst (get_random_dice_sample ones 0)) \<and>
            chained (NegInf, PosInf)
              (bounds_of (chance_node_of flat_evaluator ones last_checker W 0 W NegInf PosInf 0)) \<and>
            (W = W \<longrightarrow> list_all (alpha_carried PosInf)
              (bounds_of (chance_node_of flat_evaluator ones last_checker W 0 W NegInf PosInf 0))) \<and>
            (W \<noteq> W \<longrightarrow> list_all (beta_carried NegInf)
              (bounds_of (chance_node_of flat_evaluator ones last_checker W 0 W NegInf PosInf 0)))"
    unfolding chance_node_of_def by (rule bounds_carried_across_samples)
  from th n show ?thesis by simp
qed

section \<open>Sampled minimax: final states\<close>

text \<open>
  C8. On a state in which a side has borne off fifteen checkers the search returns at once,
  at every depth and for every player to move and every pair of bounds: plus infinity when
  the side \<open>is_game_over\<close> names the winner (white when white has fifteen off, otherwise
  black) is the maximizing player, minus infinity when it is the other one; never a finite
  value. No random number is drawn.
\<close>

theorem minimax_terminal_score:
  assumes "white_off gs \<ge> 15 \<or> black_off gs \<ge> 15"
  shows "get_minimax_score_sampled h rnd gs current_turn_player depth maximizing_player alpha beta r =
           (if (if white_off gs \<ge> 15 then W else B) = maximizing_player then PosInf else NegInf, r)"
  using assms
  by (subst get_minimax_score_sampled.simps) (auto simp: is_game_over_def)

theorem minimax_terminal_score_witness:
  "white_off white_has_won \<ge> 15 \<and>
   get_minimax_score_sampled flat_evaluator ones white_has_won B 2 W NegInf PosInf 0 = (PosInf, 0) \<and>
   get_minimax_score_sampled flat_evaluator ones white_has_won W 0 B NegInf PosInf 0 = (NegInf, 0)"
  using minimax_terminal_score [of white_has_won flat_evaluator ones B 2 W NegInf PosInf 0]
        minimax_terminal_score [of white_has_won flat_evaluator ones W 0 B NegInf PosInf 0]
  by (simp add: white_has_won_def)

section \<open>AI move selection: the outcome chosen\<close>

lemma score_list_length: "length (score_list ev outs r) = length outs"
  by (induction outs arbitrary: r) auto

lemma not_gt_then_not_ge:
  "\<not> gt_score s b \<Longrightarrow> gt_score c b \<Longrightarrow> \<not> ge_score s c"
  using gt_score_trans by (auto simp: ge_score_def)

lemma gt_not_ge: "gt_score c s \<Longrightarrow> \<not> ge_score s c"
  using gt_score_asym gt_score_irrefl by (auto simp: ge_score_def)

lemma select_loop_result:
  "kept ev outs best opt r (select_loop ev outs best opt r) \<or>
   (\<exists>i. picked ev outs best r (select_loop ev outs best opt r) i)"
proof (induction outs arbitrary: best opt r)
  case Nil
  show ?case by (simp add: kept_def)
next
  case (Cons out rest)
  obtain s r1 where e: "ev (fst out) r = (s, r1)" by (cases "ev (fst out) r")
  let ?sc = "score_list ev rest r1"
  have sl: "score_list ev (out # rest) r = s # ?sc" using e by simp
  show ?case
  proof (cases "gt_score s best")
    case True
    then have u: "select_loop ev (out # rest) best opt r = select_loop ev rest s (Some out) r1"
      using e by simp
    let ?res = "select_loop ev rest s (Some out) r1"
    from Cons.IH [of s "Some out" r1]
    have "\<exists>i. picked ev (out # rest) best r ?res i"
    proof
      assume k: "kept ev rest s (Some out) r1 ?res"
      have "picked ev (out # rest) best r ?res 0"
        unfolding picked_def sl
      proof (intro conjI allI impI)
        fix j assume "j < length (out # rest)"
        then show "\<not> gt_score ((s # ?sc) ! j) ((s # ?sc) ! 0)"
          using k gt_score_irrefl by (cases j) (auto simp: kept_def)
      qed (use k True in \<open>auto simp: kept_def\<close>)
      then show ?thesis ..
    next
      assume "\<exists>i. picked ev rest s r1 ?res i"
      then obtain i where p: "picked ev rest s r1 ?res i" ..
      then have g: "gt_score (?sc ! i) s" by (simp add: picked_def)
      have "picked ev (out # rest) best r ?res (Suc i)"
        unfolding picked_def sl
      proof (intro conjI allI impI)
        show "gt_score ((s # ?sc) ! Suc i) best"
          using g True gt_score_trans by auto
      next
        fix j assume "j < length (out # rest)"
        then show "\<not> gt_score ((s # ?sc) ! j) ((s # ?sc) ! Suc i)"
          using p g gt_score_asym by (cases j) (auto simp: picked_def)
      next
        fix j assume "j < Suc i"
        then show "\<not> ge_score ((s # ?sc) ! j) ((s # ?sc) ! Suc i)"
          using p g gt_not_ge by (cases j) (auto simp: picked_def)
      qed (use p in \<open>auto simp: picked_def\<close>)
      then show ?thesis ..
    qed
    with u show ?thesis by simp
  next
    case False
    then have u: "select_loop ev (out # rest) best opt r = select_loop ev rest best opt r1"
      using e by simp
    let ?res = "select_loop ev rest best opt r1"
    from Cons.IH [of best opt r1]
    have "kept ev (out # rest) best opt r ?res \<or> (\<exists>i. picked ev (out # rest) best r ?res i)"
    proof
      assume k: "kept ev rest best opt r1 ?res"
      have "kept ev (out # rest) best opt r ?res"
        unfolding kept_def sl
      proof (intro conjI allI impI)
        fix j assume "j < length (out # rest)"
        then show "\<not> gt_score ((s # ?sc) ! j) best"
          using k False by (cases j) (auto simp: kept_def)
      qed (use k in \<open>auto simp: kept_def\<close>)
      then show ?thesis ..
    next
      assume "\<exists>i. picked ev rest best r1 ?res i"
      then obtain i where p: "picked ev rest best r1 ?res i" ..
      then have g: "gt_score (?sc ! i) best" by (simp add: picked_def)
      have ns: "\<not> gt_score s (?sc ! i)"
        using False g gt_score_trans by blast
      have "picked ev (out # rest) best r ?res (Suc i)"
        unfolding picked_def sl
      proof (intro conjI allI impI)
        fix j assume "j < length (out # rest)"
        then show "\<not> gt_score ((s # ?sc) ! j) ((s # ?sc) ! Suc i)"
          using p ns by (cases j) (auto simp: picked_def)
      next
        fix j assume "j < Suc i"
        then show "\<not> ge_score ((s # ?sc) ! j) ((s # ?sc) ! Suc i)"
          using p not_gt_then_not_ge [OF False g] by (cases j) (auto simp: picked_def)
      qed (use p in \<open>auto simp: picked_def\<close>)
      then have "\<exists>i. picked ev (out # rest) best r ?res i" ..
      then show ?thesis ..
    qed
    with u show ?thesis by simp
  qed
qed

lemma gt_score_NegInf: "gt_score a b \<Longrightarrow> gt_score a NegInf"
  by (cases a; cases b) auto

lemma finish_turn_frame:
  "dice (finish_turn st) = [] \<and> available_moves (finish_turn st) = [] \<and>
   board (finish_turn st) = board st \<and>
   white_bar (finish_turn st) = white_bar st \<and> black_bar (finish_turn st) = black_bar st \<and>
   white_off (finish_turn st) = white_off st \<and> black_off (finish_turn st) = black_off st \<and>
   current_player (finish_turn st) = current_player st"
  by (simp add: finish_turn_def is_game_over_def)

lemma select_no_move:
  assumes "no_move_outcome (generate_possible_next_states_with_sequences gs dice_tuple ai_player)"
  shows "select_ai_move_minimax h rnd gs dice_tuple ai_player r = (([], gs), r)"
  using assms by (simp add: select_ai_move_minimax_def)

text \<open>
  Where the enumeration is not the no-move outcome, the outcome returned is the first one
  whose score exceeds minus infinity and is exceeded by no score, no earlier score being
  greater or equal; where no score exceeds minus infinity (each is minus infinity or
  not-a-number) it is the first enumerated outcome.
\<close>

lemma select_shape:
  assumes o: "outs = generate_possible_next_states_with_sequences gs dice_tuple ai_player"
    and s: "sc = score_list
                (\<lambda>st rr. get_minimax_score_sampled h rnd st (if ai_player = W then B else W)
                            (MAX_DEPTH - 1) ai_player NegInf PosInf rr) outs r"
    and n: "\<not> no_move_outcome outs"
  shows "\<exists>i < length outs.
           fst (select_ai_move_minimax h rnd gs dice_tuple ai_player r) =
             (snd (outs ! i), finish_turn (fst (outs ! i))) \<and>
           (\<forall>j < length outs. \<not> gt_score (sc ! j) (sc ! i)) \<and>
           (\<forall>j < i. \<not> ge_score (sc ! j) (sc ! i)) \<and>
           (gt_score (sc ! i) NegInf \<or>
            (i = 0 \<and> (\<forall>j < length outs. \<not> gt_score (sc ! j) NegInf)))"
proof -
  let ?ev = "\<lambda>st rr. get_minimax_score_sampled h rnd st (if ai_player = W then B else W)
                            (MAX_DEPTH - 1) ai_player NegInf PosInf rr"
  let ?res = "select_loop ?ev outs NegInf None r"
  from n have ne: "0 < length outs" by (cases outs) (auto simp: no_move_outcome_def)
  have sel: "fst (select_ai_move_minimax h rnd gs dice_tuple ai_player r) =
        (snd (case fst (snd ?res) of None \<Rightarrow> outs ! 0 | Some out \<Rightarrow> out),
         finish_turn (fst (case fst (snd ?res) of None \<Rightarrow> outs ! 0 | Some out \<Rightarrow> out)))"
    using n unfolding o by (simp add: select_ai_move_minimax_def Let_def case_prod_beta)
  from select_loop_result [of ?ev outs NegInf None r]
  show ?thesis
  proof
    assume k: "kept ?ev outs NegInf None r ?res"
    then have "fst (snd ?res) = None" by (simp add: kept_def)
    with sel have a: "fst (select_ai_move_minimax h rnd gs dice_tuple ai_player r) =
        (snd (outs ! 0), finish_turn (fst (outs ! 0)))" by simp
    from k have c: "\<forall>j < length outs. \<not> gt_score (sc ! j) NegInf"
      by (simp add: kept_def s)
    then have b: "\<forall>j < length outs. \<not> gt_score (sc ! j) (sc ! 0)"
      using gt_score_NegInf by blast
    from ne a b c show ?thesis by (intro exI [of _ 0]) simp
  next
    assume "\<exists>i. picked ?ev outs NegInf r ?res i"
    then obtain i where p: "picked ?ev outs NegInf r ?res i" ..
    then have "fst (snd ?res) = Some (outs ! i)" by (simp add: picked_def)
    with sel have a: "fst (select_ai_move_minimax h rnd gs dice_tuple ai_player r) =
        (snd (outs ! i), finish_turn (fst (outs ! i)))" by simp
    from p a show ?thesis
      by (intro exI [of _ i]) (simp add: picked_def s)
  qed
qed

text \<open>
  C10. When the sequence \<open>select_ai_move_minimax\<close> returns is not empty, the state it
  returns has no dice and no cached legal moves, and its board, bar counts, off counts and
  player to move are those of the enumerated outcome whose sequence is returned. On the
  no-move outcome the state returned is the input state, dice included.
\<close>

theorem select_returned_state_frame:
  assumes "outs = generate_possible_next_states_with_sequences gs dice_tuple ai_player"
    and "select_ai_move_minimax h rnd gs dice_tuple ai_player r = ((sq, st), r')"
  shows "(sq \<noteq> [] \<longrightarrow>
            dice st = [] \<and> available_moves st = [] \<and>
            (\<exists>i < length outs.
               sq = snd (outs ! i) \<and> board st = board (fst (outs ! i)) \<and>
               white_bar st = white_bar (fst (outs ! i)) \<and>
               black_bar st = black_bar (fst (outs ! i)) \<and>
               white_off st = white_off (fst (outs ! i)) \<and>
               black_off st = black_off (fst (outs ! i)) \<and>
               current_player st = current_player (fst (outs ! i)))) \<and>
         (no_move_outcome outs \<longrightarrow> sq = [] \<and> st = gs)"
proof (intro conjI impI)
  assume "no_move_outcome outs"
  with assms select_no_move [of gs dice_tuple ai_player h rnd r]
  show "sq = []" and "st = gs" by simp_all
next
  assume ne: "sq \<noteq> []"
  have n: "\<not> no_move_outcome outs"
  proof
    assume "no_move_outcome outs"
    with assms select_no_move [of gs dice_tuple ai_player h rnd r] have "sq = []" by simp
    with ne show False by simp
  qed
  from select_shape [OF assms(1) refl n, of h rnd r] assms(2)
  obtain i where i: "i < length outs" "sq = snd (outs ! i)" "st = finish_turn (fst (outs ! i))"
    by auto
  from i(3) finish_turn_frame [of "fst (outs ! i)"]
  show "dice st = []" and "available_moves st = []" by simp_all
  from i finish_turn_frame [of "fst (outs ! i)"]
  show "\<exists>i < length outs.
               sq = snd (outs ! i) \<and> board st = board (fst (outs ! i)) \<and>
               white_bar st = white_bar (fst (outs ! i)) \<and>
               black_bar st = black_bar (fst (outs ! i)) \<and>
               white_off st = white_off (fst (outs ! i)) \<and>
               black_off st = black_off (fst (outs ! i)) \<and>
               current_player st = current_player (fst (outs ! i))"
    by (intro exI [of _ i]) simp
qed

theorem select_returned_state_frame_witness:
  "fst (fst (select_ai_move_minimax flat_evaluator ones last_checker [1, 1, 1, 1] W 0)) \<noteq> [] \<and>
   dice (snd (fst (select_ai_move_minimax flat_evaluator ones last_checker [1, 1, 1, 1] W 0))) = [] \<and>
   available_moves (snd (fst (select_ai_move_minimax flat_evaluator ones last_checker [1, 1, 1, 1] W 0))) = [] \<and>
   no_move_outcome (generate_possible_next_states_with_sequences (white_on_bar\<lparr>dice := [6, 6]\<rparr>) [6, 6] W) \<and>
   snd (fst (select_ai_move_minimax flat_evaluator ones (white_on_bar\<lparr>dice := [6, 6]\<rparr>) [6, 6] W 0))
     = white_on_bar\<lparr>dice := [6, 6]\<rparr>"
proof -
  have a: "fst (fst (select_ai_move_minimax flat_evaluator ones last_checker [1, 1, 1, 1] W 0)) \<noteq> []"
    by code_simp
  have b: "no_move_outcome (generate_possible_next_states_with_sequences (white_on_bar\<lparr>dice := [6, 6]\<rparr>) [6, 6] W)"
    by code_simp
  have p: "select_ai_move_minimax flat_evaluator ones gs d W 0 =
             ((fst (fst (select_ai_move_minimax flat_evaluator ones gs d W 0)),
               snd (fst (select_ai_move_minimax flat_evaluator ones gs d W 0))),
              snd (select_ai_move_minimax flat_evaluator ones gs d W 0))" for gs d
    by simp
  from select_returned_state_frame [OF refl p, of last_checker "[1, 1, 1, 1]"] a
  have c: "dice (snd (fst (select_ai_move_minimax flat_evaluator ones last_checker [1, 1, 1, 1] W 0))) = []"
    "available_moves (snd (fst (select_ai_move_minimax flat_evaluator ones last_checker [1, 1, 1, 1] W 0))) = []"
    by blast+
  from select_returned_state_frame [OF refl p, of "white_on_bar\<lparr>dice := [6, 6]\<rparr>" "[6, 6]"] b
  have d: "snd (fst (select_ai_move_minimax flat_evaluator ones (white_on_bar\<lparr>dice := [6, 6]\<rparr>) [6, 6] W 0))
     = white_on_bar\<lparr>dice := [6, 6]\<rparr>"
    by blast
  from a b c d show ?thesis by (intro conjI)
qed

section \<open>AI move selection: a forced bear-off with the larger die\<close>

text \<open>
  C9. White has its last checker on point 24 and the roll is 6 and 5. Bearing that checker
  off is the one legal move, and it ends the game. The resolver gives the larger die, 6, as
  the only die to play; the enumerator consumes a die for an overshooting bear-off only when
  it is the smallest die that can make it, which is 5, so it skips the move and collects no
  outcome. \<open>select_ai_move_minimax\<close> then returns the empty sequence and the input state,
  as where no legal move exists.
\<close>

theorem select_misses_forced_bear_off:
  "get_legal_actions (last_checker\<lparr>dice := [6, 5]\<rparr>) = [(Pt 24, Off)] \<and>
   fst (make_move_base_logic (last_checker\<lparr>dice := [6, 5]\<rparr>) W (Pt 24) Off) \<and>
   white_off (snd (make_move_base_logic (last_checker\<lparr>dice := [6, 5]\<rparr>) W (Pt 24) Off)) = 15 \<and>
   get_strictly_playable_dice (last_checker\<lparr>dice := [6, 5]\<rparr>) [5, 6] W = [6] \<and>
   consumed_die W (last_checker\<lparr>dice := [6, 5]\<rparr>) [5, 6] 6 (Pt 24, Off) = None \<and>
   possible_final_outcomes (last_checker\<lparr>dice := [6, 5]\<rparr>) [6, 5] W = [] \<and>
   generate_possible_next_states_with_sequences (last_checker\<lparr>dice := [6, 5]\<rparr>) [6, 5] W =
     [(last_checker\<lparr>dice := [6, 5]\<rparr>, [])] \<and>
   fst (select_ai_move_minimax flat_evaluator ones (last_checker\<lparr>dice := [6, 5]\<rparr>) [6, 5] W 0) =
     ([], last_checker\<lparr>dice := [6, 5]\<rparr>)"
proof -
  have a: "get_legal_actions (last_checker\<lparr>dice := [6, 5]\<rparr>) = [(Pt 24, Off)]" by code_simp
  have b: "fst (make_move_base_logic (last_checker\<lparr>dice := [6, 5]\<rparr>) W (Pt 24) Off)" by code_simp
  have c: "white_off (snd (make_move_base_logic (last_checker\<lparr>dice := [6, 5]\<rparr>) W (Pt 24) Off)) = 15"
    by code_simp
  have d: "get_strictly_playable_dice (last_checker\<lparr>dice := [6, 5]\<rparr>) [5, 6] W = [6]" by code_simp
  have e: "consumed_die W (last_checker\<lparr>dice := [6, 5]\<rparr>) [5, 6] 6 (Pt 24, Off) = None" by code_simp
  have f: "possible_final_outcomes (last_checker\<lparr>dice := [6, 5]\<rparr>) [6, 5] W = []" by code_simp
  have g: "generate_possible_next_states_with_sequences (last_checker\<lparr>dice := [6, 5]\<rparr>) [6, 5] W =
     [(last_checker\<lparr>dice := [6, 5]\<rparr>, [])]" by code_simp
  have h: "fst (select_ai_move_minimax flat_evaluator ones (last_checker\<lparr>dice := [6, 5]\<rparr>) [6, 5] W 0) =
     ([], last_checker\<lparr>dice := [6, 5]\<rparr>)" by code_simp
  from a b c d e f g h show ?thesis by (intro conjI)
qed

theorem select_misses_forced_bear_off_witness:
  "get_legal_actions (last_checker\<lparr>dice := [6, 5]\<rparr>) = [(Pt 24, Off)] \<and>
   fst (select_ai_move_minimax flat_evaluator ones (last_checker\<lparr>dice := [6, 5]\<rparr>) [6, 5] W 0) =
     ([], last_checker\<lparr>dice := [6, 5]\<rparr>)"
  using select_misses_forced_bear_off by (intro conjI) (elim conjE, assumption)+

end
